theory Spec2Isabelle
  imports Complex_Main "HOL-Library.AList" "HOL-Library.Log_Nat"
begin

section \<open>Exceptions\<close>

text \<open>The exceptions that the modelled code can raise.\<close>

datatype error = ZeroDivisionError | OverflowError | AttributeError | ScheduleError

section \<open>Python numbers\<close>

text \<open>
  Metric values and thresholds are Python ints (of any size) or floats (IEEE 754
  doubles). A double is a finite value, a negative zero, an infinity or a NaN;
  \<open>Finite x\<close> stands for the double whose value is the real \<open>x\<close>, \<open>Finite 0\<close> being
  \<^verbatim>\<open>0.0\<close> and \<open>NegZero\<close> being \<^verbatim>\<open>-0.0\<close>. The type does not confine \<open>x\<close> to the
  doubles: the operations return doubles when given doubles, and what is proved for
  every \<open>x\<close> holds for the doubles.
\<close>

datatype pyfloat = Finite real | NegZero | PosInf | NegInf | NaN

datatype number = PyInt int | PyFloat pyfloat

text \<open>
  Rounding a real to the nearest double, ties to the even significand. \<open>ilog2 x\<close> is
  the binary exponent of a positive real \<open>x\<close>: \<open>2 powi ilog2 x \<le> x < 2 powi (ilog2 x + 1)\<close>.
  A double has 53 significant bits down to the exponent \<open>-1074\<close> of the smallest
  subnormal, so the doubles near \<open>x\<close> are the multiples of \<open>2 powi k\<close> for
  \<open>k = max (ilog2 \<bar>x\<bar> - 52) (- 1074)\<close>. The result is \<open>None\<close> when the rounded value
  is beyond the largest double (overflow).
\<close>

definition ilog2 :: "real \<Rightarrow> int" where
  "ilog2 x = (if 1 \<le> x then bitlen \<lfloor>x\<rfloor> - 1 else - bitlen (\<lceil>1 / x\<rceil> - 1))"

definition round_half_even :: "real \<Rightarrow> int" where
  "round_half_even x =
     (let f = \<lfloor>x\<rfloor>; d = x - of_int f
      in if d < 1 / 2 then f else if 1 / 2 < d then f + 1 else if even f then f else f + 1)"

definition round_to_double :: "real \<Rightarrow> real option" where
  "round_to_double x =
     (if x = 0 then Some 0
      else if 2 ^ 1024 \<le> \<bar>x\<bar> then None
      else let k = max (ilog2 \<bar>x\<bar> - 52) (- 1074);
               d = of_int (round_half_even (\<bar>x\<bar> / 2 powi k)) * 2 powi k
           in if 2 ^ 1024 \<le> d then None else Some (sgn x * d))"

text \<open>
  Half a spacing below \<open>2 ^ 1024\<close>: the reals of smaller magnitude are those that
  round to a double.
\<close>

definition overflow_bound :: real where
  "overflow_bound = 2 ^ 1024 - 2 ^ 970"

text \<open>The sign bit, the value of a finite double or zero, and the signed zeros and infinities.\<close>

fun negative :: "pyfloat \<Rightarrow> bool" where
  "negative (Finite x) = (x < 0)"
| "negative NegZero = True"
| "negative PosInf = False"
| "negative NegInf = True"
| "negative NaN = False"

fun val :: "pyfloat \<Rightarrow> real" where
  "val (Finite x) = x"
| "val f = 0"

definition is_inf :: "pyfloat \<Rightarrow> bool" where
  "is_inf f \<longleftrightarrow> f = PosInf \<or> f = NegInf"

definition is_zero :: "pyfloat \<Rightarrow> bool" where
  "is_zero f \<longleftrightarrow> f = Finite 0 \<or> f = NegZero"

definition zero_signed :: "bool \<Rightarrow> pyfloat" where
  "zero_signed neg = (if neg then NegZero else Finite 0)"

definition inf_signed :: "bool \<Rightarrow> pyfloat" where
  "inf_signed neg = (if neg then NegInf else PosInf)"

text \<open>
  \<^verbatim>\<open>float(n)\<close> for an int, as the mixed operations apply it: the nearest double, or
  OverflowError when there is none.
\<close>

definition float_of_int :: "int \<Rightarrow> error + pyfloat" where
  "float_of_int n =
     (case round_to_double (of_int n) of
        None \<Rightarrow> Inl OverflowError
      | Some d \<Rightarrow> Inr (Finite d))"

definition to_double :: "number \<Rightarrow> error + pyfloat" where
  "to_double v = (case v of PyInt n \<Rightarrow> float_of_int n | PyFloat f \<Rightarrow> Inr f)"

text \<open>
  The quotient of two doubles in IEEE arithmetic, for a divisor that is not zero: NaN
  propagates, an infinity over an infinity is NaN, overflow gives an infinity and
  underflow a zero, each with the sign of the exact quotient.
\<close>

definition ieee_div :: "pyfloat \<Rightarrow> pyfloat \<Rightarrow> pyfloat" where
  "ieee_div a b =
     (if a = NaN \<or> b = NaN then NaN
      else let neg = (negative a \<noteq> negative b)
        in if is_inf a then (if is_inf b then NaN else inf_signed neg)
           else if is_inf b then zero_signed neg
           else (case round_to_double (val a / val b) of
                   None \<Rightarrow> inf_signed neg
                 | Some d \<Rightarrow> if d = 0 then zero_signed neg else Finite d))"

text \<open>\<^verbatim>\<open>float.__truediv__\<close>: a zero divisor raises, also under a NaN or infinite dividend.\<close>

definition float_div :: "pyfloat \<Rightarrow> pyfloat \<Rightarrow> error + pyfloat" where
  "float_div a b = (if is_zero b then Inl ZeroDivisionError else Inr (ieee_div a b))"

text \<open>
  The operator \<^verbatim>\<open>/\<close>. On two ints it is the correctly rounded quotient and raises
  OverflowError when that is too large for a double. As soon as one operand is a float,
  the other is converted to a double first (which may raise OverflowError), dividend
  before divisor, and the doubles are divided.
\<close>

definition truediv :: "number \<Rightarrow> number \<Rightarrow> error + pyfloat" where
  "truediv v w =
     (case (v, w) of
        (PyInt a, PyInt b) \<Rightarrow>
          if b = 0 then Inl ZeroDivisionError
          else (case round_to_double (of_int a / of_int b) of
                  None \<Rightarrow> Inl OverflowError
                | Some d \<Rightarrow> Inr (if d = 0 then zero_signed ((a < 0) \<noteq> (b < 0)) else Finite d))
      | _ \<Rightarrow>
          (case to_double v of
             Inl e \<Rightarrow> Inl e
           | Inr a \<Rightarrow>
               (case to_double w of
                  Inl e \<Rightarrow> Inl e
                | Inr b \<Rightarrow> float_div a b)))"

text \<open>
  Comparison. Python compares an int with a float by their exact values, so every
  comparison is one of doubles extended by the exact values of the ints. Any comparison
  with a NaN is false; the two zeros are equal.
\<close>

fun fl_gt :: "pyfloat \<Rightarrow> pyfloat \<Rightarrow> bool" where
  "fl_gt NaN b = False"
| "fl_gt a NaN = False"
| "fl_gt NegInf b = False"
| "fl_gt a PosInf = False"
| "fl_gt PosInf b = True"
| "fl_gt a NegInf = True"
| "fl_gt a b = (val a > val b)"

definition fl_ge :: "pyfloat \<Rightarrow> pyfloat \<Rightarrow> bool" where
  "fl_ge a b \<longleftrightarrow> a \<noteq> NaN \<and> b \<noteq> NaN \<and> \<not> fl_gt b a"

definition exact :: "number \<Rightarrow> pyfloat" where
  "exact v = (case v of PyInt n \<Rightarrow> Finite (of_int n) | PyFloat f \<Rightarrow> f)"

definition num_gt :: "number \<Rightarrow> number \<Rightarrow> bool" where
  "num_gt v w = fl_gt (exact v) (exact w)"

text \<open>
  The double that the literal \<^verbatim>\<open>1.2\<close> denotes (the doubles \<^verbatim>\<open>2.0\<close> and \<^verbatim>\<open>1.5\<close> are
  exact).
\<close>

definition float_1_2 :: real where
  "float_1_2 = 5404319552844595 / 2 ^ 52"

text \<open>
  The format specification \<^verbatim>\<open>.2f\<close> converts an int to a double before rendering it,
  so it raises OverflowError for an int beyond the doubles. The rendering of a double
  is the parameter \<open>fmt\<close>.
\<close>

definition format_2f :: "(pyfloat \<Rightarrow> string) \<Rightarrow> number \<Rightarrow> error + string" where
  "format_2f fmt v = (case to_double v of Inl e \<Rightarrow> Inl e | Inr f \<Rightarrow> Inr (fmt f))"

section \<open>Alerts and the alert manager (monitoring\_system.py)\<close>

text \<open>
  Wall-clock readings are natural numbers of microseconds since the epoch: this is
  what \<^verbatim>\<open>datetime.now()\<close> resolves. \<^verbatim>\<open>int(time.time())\<close> is the same reading in whole
  seconds.
\<close>

type_synonym datetime = nat

definition epoch_seconds :: "datetime \<Rightarrow> nat" where
  "epoch_seconds now = now div 1000000"

record alert =
  alert_id :: string
  timestamp :: datetime
  severity :: string
  category :: string
  message :: string
  metric_name :: string
  current_value :: number
  threshold_value :: number
  resolved :: bool
  resolved_timestamp :: "datetime option"

text \<open>
  The dictionary \<^verbatim>\<open>active_alerts\<close> and the list \<^verbatim>\<open>alert_history\<close> share the Alert
  objects: resolving an alert mutates the object that the history also holds. Every
  Alert is appended to \<^verbatim>\<open>alert_history\<close> when it is created and that list is never
  shortened or reordered, so an object is identified by its position in the history, and
  the dictionary maps an id to that position. The dictionary is an association list in
  insertion order: assigning to a present key replaces its value in place, assigning to
  a new key appends, as a Python dict does.
\<close>

record alert_manager =
  active_alerts :: "(string \<times> nat) list"
  alert_history :: "alert list"

definition new_alert_manager :: alert_manager where
  "new_alert_manager = \<lparr>active_alerts = [], alert_history = []\<rparr>"

definition digit_char :: "nat \<Rightarrow> char" where
  "digit_char d = ''0123456789'' ! d"

fun str_of_nat :: "nat \<Rightarrow> string" where
  "str_of_nat n = (if n < 10 then [digit_char n] else str_of_nat (n div 10) @ [digit_char (n mod 10)])"

declare str_of_nat.simps [simp del]

definition make_alert_id :: "string \<Rightarrow> string \<Rightarrow> datetime \<Rightarrow> string" where
  "make_alert_id cat metric now = cat @ ''_'' @ metric @ ''_'' @ str_of_nat (epoch_seconds now)"

text \<open>
  \<^verbatim>\<open>create_alert\<close>: builds the Alert, stores it under its id and appends it to the
  history. Logging and the e-mail notification (whose failures are caught inside
  \<^verbatim>\<open>_send_alert_email\<close>) do not touch the manager's state.
\<close>

definition create_alert ::
  "alert_manager \<Rightarrow> datetime \<Rightarrow> string \<Rightarrow> string \<Rightarrow> string \<Rightarrow> number \<Rightarrow> number \<Rightarrow> string
    \<Rightarrow> alert \<times> alert_manager" where
  "create_alert am now cat metric msg cur thr sev =
     (let aid = make_alert_id cat metric now;
          a = \<lparr>alert_id = aid, timestamp = now, severity = sev, category = cat,
               message = msg, metric_name = metric, current_value = cur,
               threshold_value = thr, resolved = False, resolved_timestamp = None\<rparr>
      in (a, \<lparr>active_alerts = AList.update aid (length (alert_history am)) (active_alerts am),
              alert_history = alert_history am @ [a]\<rparr>))"

definition resolve_alert :: "alert_manager \<Rightarrow> datetime \<Rightarrow> string \<Rightarrow> bool \<times> alert_manager" where
  "resolve_alert am now aid =
     (case map_of (active_alerts am) aid of
        Some r \<Rightarrow>
          (True, \<lparr>active_alerts = AList.delete aid (active_alerts am),
                  alert_history = (alert_history am)
                    [r := (alert_history am ! r)\<lparr>resolved := True, resolved_timestamp := Some now\<rparr>]\<rparr>)
      | None \<Rightarrow> (False, am))"

text \<open>The Alert objects that \<^verbatim>\<open>active_alerts.values()\<close> yields, in dictionary order.\<close>

definition active_values :: "alert_manager \<Rightarrow> alert list" where
  "active_values am = map (\<lambda>(aid, r). alert_history am ! r) (active_alerts am)"

section \<open>Threshold evaluation\<close>

record snapshot =
  snap_timestamp :: datetime
  snap_values :: "string \<rightharpoonup> number"

text \<open>
  \<^verbatim>\<open>_determine_severity\<close>: the quotient is the double that \<^verbatim>\<open>/\<close> computes, and it is
  compared with the doubles \<^verbatim>\<open>2.0\<close>, \<^verbatim>\<open>1.5\<close> and \<^verbatim>\<open>1.2\<close>. An exception of the
  division leaves the function.
\<close>

definition determine_severity :: "number \<Rightarrow> number \<Rightarrow> error + string" where
  "determine_severity cur thr =
     (case truediv cur thr of
        Inl e \<Rightarrow> Inl e
      | Inr ratio \<Rightarrow>
          Inr (if fl_ge ratio (Finite 2) then ''critical''
               else if fl_ge ratio (Finite (3 / 2)) then ''high''
               else if fl_ge ratio (Finite float_1_2) then ''medium''
               else ''low''))"

text \<open>The fixed table of \<^verbatim>\<open>(metric_name, description, category)\<close> checks.\<close>

definition checks :: "(string \<times> string \<times> string) list" where
  "checks =
     [(''connection_count'', ''Conexiones activas'', ''connection''),
      (''cpu_usage'', ''Uso de CPU'', ''performance''),
      (''memory_usage'', ''Uso de memoria'', ''performance''),
      (''disk_usage'', ''Uso de disco'', ''disk''),
      (''slow_queries_count'', ''Consultas lentas'', ''query'')]"

definition existing_alert :: "alert_manager \<Rightarrow> string \<Rightarrow> alert option" where
  "existing_alert am metric = find (\<lambda>a. metric_name a = metric) (active_values am)"

definition alerts_to_resolve :: "alert_manager \<Rightarrow> string \<Rightarrow> string list" where
  "alerts_to_resolve am metric =
     map fst (filter (\<lambda>(aid, r). metric_name (alert_history am ! r) = metric) (active_alerts am))"

text \<open>
  The second loop of the \<^verbatim>\<open>else\<close> branch: every collected id is resolved. The
  resolutions of one iteration share its clock reading.
\<close>

definition resolve_all :: "alert_manager \<Rightarrow> datetime \<Rightarrow> string list \<Rightarrow> alert_manager" where
  "resolve_all am now ids = foldl (\<lambda>a aid. snd (resolve_alert a now aid)) am ids"

text \<open>
  One iteration of the loop of \<^verbatim>\<open>_check_thresholds\<close>. The parameter \<open>fmt\<close> is the
  two-decimal rendering of a double used in the message; \<open>now\<close> is the clock reading
  during this iteration. The severity is determined first, then the message is
  formatted (current value before threshold), then the alert is created; an exception
  of one step leaves the iteration before the next.
\<close>

definition check_metric ::
  "(pyfloat \<Rightarrow> string) \<Rightarrow> (string \<rightharpoonup> number) \<Rightarrow> (string \<rightharpoonup> number) \<Rightarrow> datetime
    \<Rightarrow> string \<times> string \<times> string \<Rightarrow> alert_manager \<Rightarrow> error + alert_manager" where
  "check_metric fmt thresholds metrics now chk am =
     (case chk of (metric, description, cat) \<Rightarrow>
        (case (metrics metric, thresholds metric) of
           (Some cur, Some thr) \<Rightarrow>
             if num_gt cur thr then
               (case existing_alert am metric of
                  Some a \<Rightarrow> Inr am
                | None \<Rightarrow>
                    (case determine_severity cur thr of
                       Inl e \<Rightarrow> Inl e
                     | Inr sev \<Rightarrow>
                         (case format_2f fmt cur of
                            Inl e \<Rightarrow> Inl e
                          | Inr cur_text \<Rightarrow>
                              (case format_2f fmt thr of
                                 Inl e \<Rightarrow> Inl e
                               | Inr thr_text \<Rightarrow>
                                   Inr (snd (create_alert am now cat metric
                                          (description @ '' excede el umbral: '' @ cur_text
                                             @ '' > '' @ thr_text)
                                          cur thr sev))))))
             else Inr (resolve_all am now (alerts_to_resolve am metric))
         | _ \<Rightarrow> Inr am))"

text \<open>
  The loop itself: \<open>clock k\<close> is the clock reading during the \<open>k\<close>-th iteration. An
  exception leaves the loop at once; what earlier iterations did to the alert manager
  stays, so the result is the manager together with the exception, if any.
\<close>

fun run_checks ::
  "(pyfloat \<Rightarrow> string) \<Rightarrow> (string \<rightharpoonup> number) \<Rightarrow> (string \<rightharpoonup> number) \<Rightarrow> (nat \<Rightarrow> datetime) \<Rightarrow> nat
    \<Rightarrow> (string \<times> string \<times> string) list \<Rightarrow> alert_manager \<Rightarrow> alert_manager \<times> error option" where
  "run_checks fmt thresholds metrics clock k [] am = (am, None)"
| "run_checks fmt thresholds metrics clock k (chk # rest) am =
     (case check_metric fmt thresholds metrics (clock k) chk am of
        Inl e \<Rightarrow> (am, Some e)
      | Inr am' \<Rightarrow> run_checks fmt thresholds metrics clock (Suc k) rest am')"

definition check_thresholds ::
  "(pyfloat \<Rightarrow> string) \<Rightarrow> (string \<rightharpoonup> number) \<Rightarrow> (nat \<Rightarrow> datetime) \<Rightarrow> (string \<rightharpoonup> number)
    \<Rightarrow> alert_manager \<Rightarrow> alert_manager \<times> error option" where
  "check_thresholds fmt thresholds clock metrics am =
     run_checks fmt thresholds metrics clock 0 checks am"

section \<open>The monitoring loop\<close>

record monitoring_system =
  alert_manager :: alert_manager
  metrics_history :: "snapshot list"

definition new_monitoring_system :: monitoring_system where
  "new_monitoring_system = \<lparr>alert_manager = new_alert_manager, metrics_history = []\<rparr>"

text \<open>
  The retention rule of the loop: append, then keep the last 1000 entries
  (\<^verbatim>\<open>self.metrics_history[-1000:]\<close>) once the length exceeds 1000.
\<close>

definition store_metrics :: "'a list \<Rightarrow> 'a \<Rightarrow> 'a list" where
  "store_metrics history m =
     (let h = history @ [m]
      in if length h > 1000 then drop (length h - 1000) h else h)"

text \<open>
  One pass of the body of \<^verbatim>\<open>_monitoring_loop\<close>, for the result of
  \<^verbatim>\<open>_collect_metrics\<close> (\<open>None\<close> when collection failed; a collected snapshot is a
  non-empty dict and so is truthy). An exception of the threshold evaluation is caught
  by the loop, after the snapshot was stored. No custom checks are registered.
\<close>

definition monitoring_cycle ::
  "(pyfloat \<Rightarrow> string) \<Rightarrow> (string \<rightharpoonup> number) \<Rightarrow> (nat \<Rightarrow> datetime) \<Rightarrow> monitoring_system
    \<Rightarrow> snapshot option \<Rightarrow> monitoring_system" where
  "monitoring_cycle fmt thresholds clock ms collected =
     (case collected of
        None \<Rightarrow> ms
      | Some m \<Rightarrow>
          \<lparr>alert_manager = fst (check_thresholds fmt thresholds clock (snap_values m) (alert_manager ms)),
           metrics_history = store_metrics (metrics_history ms) m\<rparr>)"

text \<open>
  A run of the engine: the threshold evaluation applied to one snapshot after the
  other, each with its own clock readings, starting from some alert manager.
\<close>

fun evaluate_all ::
  "(pyfloat \<Rightarrow> string) \<Rightarrow> (string \<rightharpoonup> number) \<Rightarrow> ((nat \<Rightarrow> datetime) \<times> (string \<rightharpoonup> number)) list
    \<Rightarrow> alert_manager \<Rightarrow> alert_manager" where
  "evaluate_all fmt thresholds [] am = am"
| "evaluate_all fmt thresholds ((clock, metrics) # rest) am =
     evaluate_all fmt thresholds rest (fst (check_thresholds fmt thresholds clock metrics am))"

text \<open>
  Properties of the alert manager's state. \<open>wf_manager\<close>: the dictionary has one entry
  per key, no two keys share an Alert object, and every entry refers to an existing,
  unresolved Alert. \<open>dedup\<close>: no two entries of the dictionary carry the same metric name.
\<close>

definition wf_manager :: "alert_manager \<Rightarrow> bool" where
  "wf_manager am \<longleftrightarrow>
     distinct (map fst (active_alerts am)) \<and> distinct (map snd (active_alerts am)) \<and>
     (\<forall>p \<in> set (active_alerts am).
        snd p < length (alert_history am) \<and> \<not> resolved (alert_history am ! snd p))"

definition dedup :: "alert_manager \<Rightarrow> bool" where
  "dedup am \<longleftrightarrow>
     (\<forall>p \<in> set (active_alerts am). \<forall>q \<in> set (active_alerts am).
        metric_name (alert_history am ! snd p) = metric_name (alert_history am ! snd q) \<longrightarrow> p = q)"

text \<open>The unresolved alerts for one metric name that the active set holds.\<close>

definition unresolved_for :: "alert_manager \<Rightarrow> string \<Rightarrow> alert list" where
  "unresolved_for am metric =
     filter (\<lambda>a. metric_name a = metric \<and> \<not> resolved a) (active_values am)"

section \<open>Scheduled tasks and the task scheduler (scheduler.py)\<close>

text \<open>
  Python values as far as the scheduler meets them: the \<^verbatim>\<open>schedule_value\<close> of a task
  (\<^verbatim>\<open>Any\<close>: seconds or a time-of-day or weekday string) and what a task's callable
  returns.
\<close>

datatype pyval = NoneV | BoolV bool | IntV int | StrV string

text \<open>What invoking a callable does: it returns a value or raises an exception with a message.\<close>

datatype outcome = Returned pyval | Raised string

text \<open>
  A ScheduledTask without its \<^verbatim>\<open>function\<close> field: the callable is given to
  \<open>execute_task\<close> as an argument.
\<close>

record scheduled_task =
  task_id :: string
  task_name :: string
  schedule_type :: string
  schedule_value :: pyval
  enabled :: bool
  last_run :: "datetime option"
  next_run :: "datetime option"
  run_count :: nat
  error_count :: nat
  last_error :: "string option"

text \<open>
  The \<^verbatim>\<open>schedule\<close> library is an external collaborator. It is modelled by its list of
  armed jobs: \<^verbatim>\<open>schedule.every()...do(f).tag(t)\<close> appends a job, \<^verbatim>\<open>schedule.clear(t)\<close>
  removes the jobs tagged \<open>t\<close>. A job records its unit, the task object its callback is
  bound to, and its tag. Which requests the library accepts (its validation of an
  interval or of a time-of-day string) is a parameter \<open>accepts\<close> of the model; a
  request that it refuses raises.
\<close>

datatype cadence =
  Every_seconds pyval | Every_day_at pyval | Every_weekday string | Every_day_monthly_check

record job =
  job_cadence :: cadence
  job_target :: nat
  job_tag :: string

text \<open>
  ScheduledTask objects are shared between the registry and the callbacks of the armed
  jobs, so they live in a store (\<open>task_objects\<close>, addressed by position) and the registry
  \<^verbatim>\<open>scheduled_tasks\<close> maps a task id to an address. The field \<open>monitoring\<close> is the
  scheduler's \<^verbatim>\<open>monitoring_system\<close>, \<open>jobs\<close> the job list of the \<^verbatim>\<open>schedule\<close> library.
\<close>

record task_scheduler =
  monitoring :: monitoring_system
  task_objects :: "scheduled_task list"
  scheduled_tasks :: "(string \<times> nat) list"
  jobs :: "job list"

definition lower_char :: "char \<Rightarrow> char" where
  "lower_char c =
     (case map_of (zip ''ABCDEFGHIJKLMNOPQRSTUVWXYZ'' ''abcdefghijklmnopqrstuvwxyz'') c of
        Some d \<Rightarrow> d
      | None \<Rightarrow> c)"

text \<open>\<^verbatim>\<open>str.lower()\<close> on ASCII text.\<close>

definition lower :: "string \<Rightarrow> string" where
  "lower s = map lower_char s"

definition weekdays :: "string list" where
  "weekdays = [''monday'', ''tuesday'', ''wednesday'', ''thursday'', ''friday'', ''saturday'', ''sunday'']"

definition arm :: "(cadence \<Rightarrow> bool) \<Rightarrow> task_scheduler \<Rightarrow> cadence \<Rightarrow> nat \<Rightarrow> error + task_scheduler" where
  "arm accepts s c r =
     (if accepts c then
        Inr (s\<lparr>jobs := jobs s @
               [\<lparr>job_cadence = c, job_target = r, job_tag = task_id (task_objects s ! r)\<rparr>]\<rparr>)
      else Inl ScheduleError)"

text \<open>
  \<^verbatim>\<open>_schedule_task\<close> for the task object at address \<open>r\<close>. The chain of comparisons of
  \<^verbatim>\<open>schedule_value.lower()\<close> with the seven weekday names is a membership test. A weekly
  task whose value is not a string fails at \<^verbatim>\<open>.lower()\<close>; a weekly task whose value
  names no weekday, and a task of an unknown schedule type, arm nothing.
\<close>

definition schedule_task :: "(cadence \<Rightarrow> bool) \<Rightarrow> task_scheduler \<Rightarrow> nat \<Rightarrow> error + task_scheduler" where
  "schedule_task accepts s r =
     (let task = task_objects s ! r in
      if schedule_type task = ''interval'' then arm accepts s (Every_seconds (schedule_value task)) r
      else if schedule_type task = ''daily'' then arm accepts s (Every_day_at (schedule_value task)) r
      else if schedule_type task = ''weekly'' then
        (case schedule_value task of
           StrV v \<Rightarrow>
             if lower v \<in> set weekdays then arm accepts s (Every_weekday (lower v)) r else Inr s
         | _ \<Rightarrow> Inl AttributeError)
      else if schedule_type task = ''monthly'' then arm accepts s Every_day_monthly_check r
      else Inr s)"

text \<open>
  \<^verbatim>\<open>add_task\<close>. An exception of \<^verbatim>\<open>_schedule_task\<close> leaves it after the task was stored.
\<close>

definition add_task ::
  "(cadence \<Rightarrow> bool) \<Rightarrow> task_scheduler \<Rightarrow> string \<Rightarrow> string \<Rightarrow> string \<Rightarrow> pyval \<Rightarrow> bool
    \<Rightarrow> (error + bool) \<times> task_scheduler" where
  "add_task accepts s tid name stype svalue en =
     (if tid \<in> fst ` set (scheduled_tasks s) then (Inr False, s)
      else
        let task = \<lparr>task_id = tid, task_name = name, schedule_type = stype,
                    schedule_value = svalue, enabled = en, last_run = None, next_run = None,
                    run_count = 0, error_count = 0, last_error = None\<rparr>;
            r = length (task_objects s);
            s1 = s\<lparr>task_objects := task_objects s @ [task],
                   scheduled_tasks := AList.update tid r (scheduled_tasks s)\<rparr>
        in if en then
             (case schedule_task accepts s1 r of
                Inl e \<Rightarrow> (Inl e, s1)
              | Inr s2 \<Rightarrow> (Inr True, s2))
           else (Inr True, s1))"

definition clear :: "job list \<Rightarrow> string \<Rightarrow> job list" where
  "clear js tag = filter (\<lambda>j. job_tag j \<noteq> tag) js"

definition disable_task :: "task_scheduler \<Rightarrow> string \<Rightarrow> bool \<times> task_scheduler" where
  "disable_task s tid =
     (case map_of (scheduled_tasks s) tid of
        None \<Rightarrow> (False, s)
      | Some r \<Rightarrow>
          (True, s\<lparr>task_objects := (task_objects s)[r := (task_objects s ! r)\<lparr>enabled := False\<rparr>],
                   jobs := clear (jobs s) tid\<rparr>))"

text \<open>
  \<^verbatim>\<open>_execute_task\<close> for the task object at address \<open>r\<close>, at clock reading \<open>now\<close>.
  \<open>call\<close> is the task's callable: it may change the scheduler's state, and it returns or
  raises. \<open>begin_run\<close> is the accounting done before the callable is invoked.
\<close>

definition begin_run :: "task_scheduler \<Rightarrow> nat \<Rightarrow> datetime \<Rightarrow> task_scheduler" where
  "begin_run s r now =
     (let t0 = task_objects s ! r
      in s\<lparr>task_objects := (task_objects s)[r := t0\<lparr>last_run := Some now, run_count := run_count t0 + 1\<rparr>]\<rparr>)"

definition execute_task ::
  "(task_scheduler \<Rightarrow> outcome \<times> task_scheduler) \<Rightarrow> task_scheduler \<Rightarrow> nat \<Rightarrow> datetime \<Rightarrow> task_scheduler" where
  "execute_task call s r now =
     (let s1 = begin_run s r now
      in case call s1 of
           (Returned v, s2) \<Rightarrow>
             s2\<lparr>task_objects := (task_objects s2)[r := (task_objects s2 ! r)\<lparr>last_error := None\<rparr>]\<rparr>
         | (Raised msg, s2) \<Rightarrow>
             (let t2 = task_objects s2 ! r;
                  t3 = t2\<lparr>error_count := error_count t2 + 1, last_error := Some msg\<rparr>;
                  s3 = s2\<lparr>task_objects := (task_objects s2)[r := t3]\<rparr>
              in if error_count t3 \<ge> 5 then snd (disable_task s3 (task_id t3)) else s3))"

text \<open>Repeated execution of one task object; \<open>clock k\<close> is the reading at the \<open>k\<close>-th run.\<close>

fun execute_times ::
  "(task_scheduler \<Rightarrow> outcome \<times> task_scheduler) \<Rightarrow> nat \<Rightarrow> (nat \<Rightarrow> datetime) \<Rightarrow> nat
    \<Rightarrow> task_scheduler \<Rightarrow> task_scheduler" where
  "execute_times call r clock 0 s = s"
| "execute_times call r clock (Suc n) s =
     execute_task call (execute_times call r clock n s) r (clock n)"

text \<open>
  \<^verbatim>\<open>_check_database_connection\<close>. \<open>conn\<close> is what \<^verbatim>\<open>db_manager.test_connection()\<close> does:
  it returns a boolean (\<open>Inr\<close>) or raises (\<open>Inl\<close>, which the task logs and re-raises).
  The message is the UTF-8 text of the source.
\<close>

definition connection_lost_message :: string where
  "connection_lost_message =
     ''Conexi'' @ [CHR 0xC3, CHR 0xB3] @ ''n a la base de datos perdida''"

definition check_database_connection ::
  "string + bool \<Rightarrow> datetime \<Rightarrow> task_scheduler \<Rightarrow> outcome \<times> task_scheduler" where
  "check_database_connection conn now s =
     (case conn of
        Inl msg \<Rightarrow> (Raised msg, s)
      | Inr is_connected \<Rightarrow>
          if \<not> is_connected then
            (Returned (BoolV False),
             s\<lparr>monitoring := (monitoring s)\<lparr>alert_manager :=
                  snd (create_alert (alert_manager (monitoring s)) now ''connection''
                         ''database_connection'' connection_lost_message (PyInt 0) (PyInt 1)
                         ''critical'')\<rparr>\<rparr>)
          else (Returned (BoolV True), s))"

text \<open>
  The scheduler as \<^verbatim>\<open>TaskScheduler.__init__\<close> has it just before it calls
  \<^verbatim>\<open>_setup_default_tasks\<close>: no task is registered and no job is armed. The default
  tasks are then added one by one with \<^verbatim>\<open>add_task\<close>.
\<close>

definition new_task_scheduler :: task_scheduler where
  "new_task_scheduler =
     \<lparr>monitoring = new_monitoring_system, task_objects = [], scheduled_tasks = [], jobs = []\<rparr>"

text \<open>
  A property of the scheduler's state: every armed job is bound to an existing task
  object and tagged with that object's id, as \<^verbatim>\<open>_schedule_task\<close> arms them.
\<close>

definition jobs_ok :: "task_scheduler \<Rightarrow> bool" where
  "jobs_ok s \<longleftrightarrow>
     (\<forall>j \<in> set (jobs s).
        job_target j < length (task_objects s) \<and> job_tag j = task_id (task_objects s ! job_target j))"

text \<open>The task object at address \<open>r\<close> is the one registered under its own id.\<close>

definition registered :: "task_scheduler \<Rightarrow> nat \<Rightarrow> bool" where
  "registered s r \<longleftrightarrow>
     r < length (task_objects s) \<and>
     map_of (scheduled_tasks s) (task_id (task_objects s ! r)) = Some r"

text \<open>An automatic invocation of the task object at \<open>r\<close> needs an armed job bound to it.\<close>

definition armed :: "task_scheduler \<Rightarrow> nat \<Rightarrow> bool" where
  "armed s r \<longleftrightarrow> (\<exists>j \<in> set (jobs s). job_target j = r)"

text \<open>
  A run of executions of one task object, each with the behaviour its callable shows at
  that invocation and the clock reading of that invocation; and the number of
  invocations of such a run in which the callable raised.
\<close>

fun execute_seq ::
  "((task_scheduler \<Rightarrow> outcome \<times> task_scheduler) \<times> datetime) list \<Rightarrow> nat
    \<Rightarrow> task_scheduler \<Rightarrow> task_scheduler" where
  "execute_seq [] r s = s"
| "execute_seq ((call, now) # rest) r s = execute_seq rest r (execute_task call s r now)"

definition raised :: "outcome \<Rightarrow> bool" where
  "raised out = (case out of Raised msg \<Rightarrow> True | Returned v \<Rightarrow> False)"

fun failures ::
  "((task_scheduler \<Rightarrow> outcome \<times> task_scheduler) \<times> datetime) list \<Rightarrow> nat
    \<Rightarrow> task_scheduler \<Rightarrow> nat" where
  "failures [] r s = 0"
| "failures ((call, now) # rest) r s =
     (if raised (fst (call (begin_run s r now))) then 1 else 0)
       + failures rest r (execute_task call s r now)"

text \<open>
  What is assumed of an opaque callable: it leaves the scheduler's task objects, registry
  and armed jobs alone. \<open>always_fails\<close>: it raises at every invocation.
\<close>

definition untouched :: "(task_scheduler \<Rightarrow> outcome \<times> task_scheduler) \<Rightarrow> bool" where
  "untouched call \<longleftrightarrow>
     (\<forall>s. task_objects (snd (call s)) = task_objects s
        \<and> scheduled_tasks (snd (call s)) = scheduled_tasks s
        \<and> jobs (snd (call s)) = jobs s)"

definition always_fails :: "(task_scheduler \<Rightarrow> outcome \<times> task_scheduler) \<Rightarrow> bool" where
  "always_fails call \<longleftrightarrow> (\<forall>s. raised (fst (call s)))"

text \<open>
  The job that \<^verbatim>\<open>_schedule_task\<close> requests for a cadence descriptor: one for interval,
  daily and monthly, and for weekly on a weekday name in any letter case; none
  otherwise. A descriptor is \<open>recognised\<close> when a job is requested for it and the
  library accepts the request.
\<close>

definition requested_cadence :: "string \<Rightarrow> pyval \<Rightarrow> cadence option" where
  "requested_cadence stype svalue =
     (if stype = ''interval'' then Some (Every_seconds svalue)
      else if stype = ''daily'' then Some (Every_day_at svalue)
      else if stype = ''weekly'' then
        (case svalue of
           StrV v \<Rightarrow> if lower v \<in> set weekdays then Some (Every_weekday (lower v)) else None
         | _ \<Rightarrow> None)
      else if stype = ''monthly'' then Some Every_day_monthly_check
      else None)"

definition recognised :: "(cadence \<Rightarrow> bool) \<Rightarrow> string \<Rightarrow> pyval \<Rightarrow> bool" where
  "recognised accepts stype svalue \<longleftrightarrow>
     (case requested_cadence stype svalue of Some c \<Rightarrow> accepts c | None \<Rightarrow> False)"

text \<open>
  A run of the monitoring loop: one pass per entry, each with its clock readings and
  the result of the collection.
\<close>

definition monitoring_run ::
  "(pyfloat \<Rightarrow> string) \<Rightarrow> (string \<rightharpoonup> number) \<Rightarrow> ((nat \<Rightarrow> datetime) \<times> snapshot option) list
    \<Rightarrow> monitoring_system \<Rightarrow> monitoring_system" where
  "monitoring_run fmt thresholds inputs ms =
     foldl (\<lambda>m (clock, collected). monitoring_cycle fmt thresholds clock m collected) ms inputs"

section \<open>Facts about numbers\<close>

lemma bitlen_pos: "0 < n \<Longrightarrow> 1 \<le> bitlen n"
  by (auto simp: bitlen_alt_def)

text \<open>\<open>ilog2\<close> is the binary exponent of a positive real.\<close>

lemma ilog2_bounds:
  assumes "0 < x"
  shows "2 powi ilog2 x \<le> x" and "x < 2 powi (ilog2 x + 1)"
proof -
  show "2 powi ilog2 x \<le> x"
  proof (cases "1 \<le> x")
    case True
    then have pos: "0 < \<lfloor>x\<rfloor>" by linarith
    from bitlen_bounds [OF pos] have "2 ^ nat (bitlen \<lfloor>x\<rfloor> - 1) \<le> \<lfloor>x\<rfloor>" by blast
    then have "(2::real) ^ nat (bitlen \<lfloor>x\<rfloor> - 1) \<le> of_int \<lfloor>x\<rfloor>"
      by (metis of_int_le_iff of_int_numeral of_int_power)
    also have "\<dots> \<le> x" by simp
    finally show ?thesis
      using True bitlen_pos [OF pos] by (simp add: ilog2_def power_int_def)
  next
    case False
    with assms have y: "1 < 1 / x" by simp
    let ?n = "\<lceil>1 / x\<rceil> - 1"
    have pos: "0 < ?n" using y by linarith
    from bitlen_bounds [OF pos] have "?n < 2 ^ nat (bitlen ?n)" by blast
    then have "\<lceil>1 / x\<rceil> \<le> 2 ^ nat (bitlen ?n)" by linarith
    then have "of_int \<lceil>1 / x\<rceil> \<le> (2::real) ^ nat (bitlen ?n)"
      by (metis of_int_le_iff of_int_numeral of_int_power)
    then have "1 / x \<le> (2::real) ^ nat (bitlen ?n)"
      by (meson le_of_int_ceiling order_trans)
    then have "1 / 2 ^ nat (bitlen ?n) \<le> x"
      using assms by (simp add: field_simps)
    then show ?thesis
      using False bitlen_pos [OF pos]
      by (simp add: ilog2_def power_int_def field_simps)
  qed
  show "x < 2 powi (ilog2 x + 1)"
  proof (cases "1 \<le> x")
    case True
    then have pos: "0 < \<lfloor>x\<rfloor>" by linarith
    from bitlen_bounds [OF pos] have "\<lfloor>x\<rfloor> < 2 ^ nat (bitlen \<lfloor>x\<rfloor>)" by blast
    then have "\<lfloor>x\<rfloor> + 1 \<le> 2 ^ nat (bitlen \<lfloor>x\<rfloor>)" by linarith
    then have "of_int (\<lfloor>x\<rfloor> + 1) \<le> (2::real) ^ nat (bitlen \<lfloor>x\<rfloor>)"
      by (metis of_int_le_iff of_int_numeral of_int_power)
    moreover have "x < of_int (\<lfloor>x\<rfloor> + 1)" by linarith
    ultimately have "x < 2 ^ nat (bitlen \<lfloor>x\<rfloor>)" by linarith
    then show ?thesis
      using True bitlen_pos [OF pos] by (simp add: ilog2_def power_int_def)
  next
    case False
    with assms have y: "1 < 1 / x" by simp
    let ?n = "\<lceil>1 / x\<rceil> - 1"
    have pos: "0 < ?n" using y by linarith
    from bitlen_bounds [OF pos] have "2 ^ nat (bitlen ?n - 1) \<le> ?n" by blast
    then have "of_int (2 ^ nat (bitlen ?n - 1)) \<le> (of_int ?n :: real)"
      by (simp only: of_int_le_iff)
    then have "(2::real) ^ nat (bitlen ?n - 1) \<le> of_int ?n" by simp
    moreover have "of_int ?n < 1 / x" by linarith
    ultimately have "(2::real) ^ nat (bitlen ?n - 1) < 1 / x" by linarith
    then have "x < 1 / 2 ^ nat (bitlen ?n - 1)"
      using assms by (simp add: field_simps)
    moreover have "- bitlen ?n + 1 \<le> 0" using bitlen_pos [OF pos] by simp
    ultimately show ?thesis
      using False bitlen_pos [OF pos]
      by (auto simp: ilog2_def power_int_def field_simps nat_diff_distrib)
  qed
qed

text \<open>Rounding to an integer moves a real by at most one half.\<close>

lemma round_half_even_nearest: "\<bar>x - of_int (round_half_even x)\<bar> \<le> 1 / 2"
  unfolding round_half_even_def Let_def by (auto simp: abs_le_iff)

text \<open>
  The rounded value is a multiple of the spacing \<open>2 powi k\<close> of the doubles around \<open>x\<close>,
  with a significand of at most 53 bits, and no further from \<open>x\<close> than half that spacing.
\<close>

lemma round_to_double_nearest:
  assumes "round_to_double x = Some d" and "x \<noteq> 0"
  shows "\<exists>m. d = of_int m * 2 powi max (ilog2 \<bar>x\<bar> - 52) (- 1074)
      \<and> \<bar>x - d\<bar> \<le> 2 powi max (ilog2 \<bar>x\<bar> - 52) (- 1074) / 2"
proof -
  define k where "k = max (ilog2 \<bar>x\<bar> - 52) (- 1074)"
  define m where "m = round_half_even (\<bar>x\<bar> / 2 powi k)"
  have p: "(0::real) < 2 powi k" by simp
  from assms have d: "d = sgn x * (of_int m * 2 powi k)"
    by (auto simp: round_to_double_def Let_def k_def m_def split: if_splits)
  have "\<bar>\<bar>x\<bar> / 2 powi k - of_int m\<bar> \<le> 1 / 2"
    unfolding m_def by (rule round_half_even_nearest)
  then have "\<bar>\<bar>x\<bar> / 2 powi k - of_int m\<bar> * 2 powi k \<le> 1 / 2 * 2 powi k"
    using p by (intro mult_right_mono) simp_all
  moreover have "\<bar>\<bar>x\<bar> / 2 powi k - of_int m\<bar> * 2 powi k = \<bar>\<bar>x\<bar> - of_int m * 2 powi k\<bar>"
  proof -
    have "\<bar>\<bar>x\<bar> / 2 powi k - of_int m\<bar> * 2 powi k = \<bar>(\<bar>x\<bar> / 2 powi k - of_int m) * 2 powi k\<bar>"
      using p by (simp add: abs_mult)
    also have "(\<bar>x\<bar> / 2 powi k - of_int m) * 2 powi k = \<bar>x\<bar> - of_int m * 2 powi k"
      using p by (simp add: field_simps)
    finally show ?thesis .
  qed
  ultimately have near: "\<bar>\<bar>x\<bar> - of_int m * 2 powi k\<bar> \<le> 2 powi k / 2" by simp
  have "\<bar>x - d\<bar> = \<bar>\<bar>x\<bar> - of_int m * 2 powi k\<bar>"
  proof (cases "0 < x")
    case True
    then show ?thesis by (simp add: d)
  next
    case False
    with assms(2) have "x < 0" by simp
    then have "x - d = - (\<bar>x\<bar> - of_int m * 2 powi k)" by (simp add: d)
    then show ?thesis by (simp only: abs_minus_cancel)
  qed
  with near have "\<bar>x - d\<bar> \<le> 2 powi k / 2" by simp
  moreover have "d = of_int (- m) * 2 powi k \<or> d = of_int m * 2 powi k"
    using assms(2) by (cases "0 < x") (simp_all add: d sgn_if)
  ultimately show ?thesis unfolding k_def by blast
qed

text \<open>Overflow: rounding fails exactly from \<open>overflow_bound\<close> on.\<close>

lemma round_half_even_le: "of_int (round_half_even x) \<le> x + 1 / 2"
  using round_half_even_nearest [of x] by linarith

lemma round_half_even_ge: "x - 1 / 2 \<le> of_int (round_half_even x)"
  using round_half_even_nearest [of x] by linarith

lemma round_half_even_tie_up:
  assumes "even N" and "of_int N - 1 / 2 \<le> x"
  shows "N \<le> round_half_even x"
proof (cases "of_int N \<le> x")
  case True
  then have "N \<le> \<lfloor>x\<rfloor>" by (simp add: le_floor_iff)
  then show ?thesis
    by (auto simp: round_half_even_def Let_def)
next
  case False
  with assms(2) have f: "\<lfloor>x\<rfloor> = N - 1" by linarith
  then have "odd \<lfloor>x\<rfloor>" using assms(1) by simp
  moreover have "1 / 2 \<le> x - of_int \<lfloor>x\<rfloor>" using assms(2) f by simp
  ultimately show ?thesis
    using f by (auto simp: round_half_even_def Let_def)
qed

lemma ilog2_less:
  assumes "0 < x" and "x < 2 powi n"
  shows "ilog2 x < n"
proof (rule ccontr)
  assume "\<not> ilog2 x < n"
  then have "(2::real) powi n \<le> 2 powi ilog2 x"
    by (intro power_int_increasing) simp_all
  with ilog2_bounds(1) [OF assms(1)] assms(2) show False by linarith
qed

lemma ilog2_ge:
  assumes "0 < x" and "2 powi n \<le> x"
  shows "n \<le> ilog2 x"
proof (rule ccontr)
  assume "\<not> n \<le> ilog2 x"
  then have "(2::real) powi (ilog2 x + 1) \<le> 2 powi n"
    by (intro power_int_increasing) simp_all
  with ilog2_bounds(2) [OF assms(1)] assms(2) show False by linarith
qed

lemma round_to_double_returns:
  assumes "\<bar>x\<bar> < overflow_bound"
  shows "\<exists>d. round_to_double x = Some d"
proof (cases "x = 0")
  case True
  then show ?thesis by (simp add: round_to_double_def)
next
  case False
  define k where "k = max (ilog2 \<bar>x\<bar> - 52) (- 1074)"
  define m where "m = round_half_even (\<bar>x\<bar> / 2 powi k)"
  have pos: "0 < \<bar>x\<bar>" using False by simp
  have small: "\<bar>x\<bar> < 2 ^ 1024" using assms by (simp add: overflow_bound_def)
  then have "\<bar>x\<bar> < 2 powi 1024" by simp
  with pos have "ilog2 \<bar>x\<bar> < 1024" by (rule ilog2_less)
  then have k: "k \<le> 971" by (simp add: k_def)
  have p: "(0::real) < 2 powi k" by simp
  have "of_int m \<le> \<bar>x\<bar> / 2 powi k + 1 / 2"
    unfolding m_def by (rule round_half_even_le)
  then have "of_int m * 2 powi k \<le> (\<bar>x\<bar> / 2 powi k + 1 / 2) * 2 powi k"
    using p by (intro mult_right_mono) simp_all
  also have "\<dots> = \<bar>x\<bar> + 2 powi k / 2"
    using p by (simp add: field_simps)
  also have "(2::real) powi k \<le> 2 powi 971"
    using k by (intro power_int_increasing) simp_all
  finally have "of_int m * 2 powi k \<le> \<bar>x\<bar> + 2 powi 971 / 2" by simp
  also have "\<dots> < overflow_bound + 2 powi 971 / 2" using assms by simp
  also have "\<dots> = 2 ^ 1024" by (simp add: overflow_bound_def)
  finally have "\<not> 2 ^ 1024 \<le> of_int m * (2::real) powi k" by simp
  then show ?thesis
    using False small by (simp add: round_to_double_def Let_def k_def m_def)
qed

lemma round_to_double_overflows:
  assumes "overflow_bound \<le> \<bar>x\<bar>"
  shows "round_to_double x = None"
proof (cases "2 ^ 1024 \<le> \<bar>x\<bar>")
  case True
  then have "x \<noteq> 0" by auto
  with True show ?thesis by (simp add: round_to_double_def)
next
  case False
  have big: "(2::real) powi 1023 \<le> \<bar>x\<bar>"
    using assms by (simp add: overflow_bound_def)
  moreover have "(0::real) < 2 powi 1023" by simp
  ultimately have pos: "0 < \<bar>x\<bar>" by linarith
  then have nz: "x \<noteq> 0" by simp
  from False have "\<bar>x\<bar> < 2 powi 1024" by simp
  with pos have "ilog2 \<bar>x\<bar> < 1024" by (rule ilog2_less)
  moreover from pos big have "1023 \<le> ilog2 \<bar>x\<bar>" by (rule ilog2_ge)
  ultimately have e: "ilog2 \<bar>x\<bar> = 1023" by simp
  have "of_int (2 ^ 53) - 1 / 2 \<le> \<bar>x\<bar> / 2 powi 971"
    using assms by (simp add: overflow_bound_def field_simps)
  then have "2 ^ 53 \<le> round_half_even (\<bar>x\<bar> / 2 powi 971)"
    by (intro round_half_even_tie_up) simp_all
  then have "(of_int (2 ^ 53) :: real) \<le> of_int (round_half_even (\<bar>x\<bar> / 2 powi 971))"
    by (simp only: of_int_le_iff)
  then have "of_int (2 ^ 53) * 2 powi 971 \<le> of_int (round_half_even (\<bar>x\<bar> / 2 powi 971)) * (2::real) powi 971"
    by (intro mult_right_mono) simp_all
  then have "2 ^ 1024 \<le> of_int (round_half_even (\<bar>x\<bar> / 2 powi 971)) * (2::real) powi 971"
    by simp
  then show ?thesis
    using nz False e by (simp add: round_to_double_def Let_def)
qed

lemma round_to_double_None_iff: "round_to_double x = None \<longleftrightarrow> overflow_bound \<le> \<bar>x\<bar>"
  using round_to_double_returns [of x] round_to_double_overflows [of x]
  by (cases "overflow_bound \<le> \<bar>x\<bar>") auto

text \<open>A real of magnitude at least 1 does not round to zero.\<close>

lemma round_to_double_nonzero:
  assumes "1 \<le> \<bar>x\<bar>" and "round_to_double x = Some d"
  shows "d \<noteq> 0"
proof
  assume "d = 0"
  from assms(1) have nz: "x \<noteq> 0" and pos: "0 < \<bar>x\<bar>" by auto
  from assms(1) have "(2::real) powi 0 \<le> \<bar>x\<bar>" by simp
  with pos have e: "0 \<le> ilog2 \<bar>x\<bar>" by (rule ilog2_ge)
  then have k: "max (ilog2 \<bar>x\<bar> - 52) (- 1074) = ilog2 \<bar>x\<bar> - 52" by simp
  from round_to_double_nearest [OF assms(2) nz] \<open>d = 0\<close>
  have "\<bar>x\<bar> \<le> 2 powi (ilog2 \<bar>x\<bar> - 52) / 2" by (simp add: k)
  also have "\<dots> < 2 powi (ilog2 \<bar>x\<bar> - 52)" by simp
  also have "\<dots> \<le> 2 powi ilog2 \<bar>x\<bar>"
    by (intro power_int_increasing) simp_all
  also have "\<dots> \<le> \<bar>x\<bar>" using pos by (rule ilog2_bounds(1))
  finally show False by simp
qed

lemma float_of_int_returns_iff:
  "(\<exists>f. float_of_int n = Inr f) \<longleftrightarrow> \<bar>of_int n\<bar> < overflow_bound"
  using round_to_double_None_iff [of "of_int n"]
  by (auto simp: float_of_int_def split: option.splits)

text \<open>The literal \<^verbatim>\<open>1.2\<close> is the double nearest to 6/5.\<close>

lemma float_1_2_nearest: "round_to_double (6 / 5) = Some float_1_2"
  by (simp add: round_to_double_def ilog2_def compute_bitlen round_half_even_def Let_def
      float_1_2_def)

text \<open>The division of two floats raises only for a zero divisor.\<close>

lemma truediv_floats:
  "truediv (PyFloat a) (PyFloat b) = (if is_zero b then Inl ZeroDivisionError else Inr (ieee_div a b))"
  by (simp add: truediv_def to_double_def float_div_def)

lemma format_2f_float: "format_2f fmt (PyFloat a) = Inr (fmt a)"
  by (simp add: format_2f_def to_double_def)

text \<open>Two numbers that are not NaN are comparable.\<close>

lemma fl_ge_or_gt: "q \<noteq> NaN \<Longrightarrow> c \<noteq> NaN \<Longrightarrow> fl_ge q c \<or> fl_gt c q"
  by (simp add: fl_ge_def)

lemma fl_gt_not_ge: "fl_gt c q \<Longrightarrow> \<not> fl_ge q c"
  by (simp add: fl_ge_def)

text \<open>The quotient of a value above a positive threshold is never a NaN.\<close>

lemma truediv_not_nan:
  assumes "num_gt thr (PyInt 0)" and "num_gt cur thr" and "truediv cur thr = Inr q"
  shows "q \<noteq> NaN"
proof (cases thr)
  case ti: (PyInt b)
  show ?thesis
  proof (cases cur)
    case (PyInt a)
    with ti assms show ?thesis
      by (auto simp: truediv_def zero_signed_def split: if_splits option.splits)
  next
    case (PyFloat x)
    with ti assms show ?thesis
      by (cases x)
        (auto simp: truediv_def to_double_def float_of_int_def float_div_def ieee_div_def
          num_gt_def exact_def is_inf_def is_zero_def zero_signed_def inf_signed_def Let_def
          split: if_splits option.splits sum.splits)
  qed
next
  case tf: (PyFloat y)
  show ?thesis
  proof (cases cur)
    case (PyInt a)
    with tf assms show ?thesis
      by (cases y)
        (auto simp: truediv_def to_double_def float_of_int_def float_div_def ieee_div_def
          num_gt_def exact_def is_inf_def is_zero_def zero_signed_def inf_signed_def Let_def
          split: if_splits option.splits sum.splits)
  next
    case (PyFloat x)
    with tf assms show ?thesis
      by (cases x; cases y)
        (auto simp: truediv_def to_double_def float_div_def ieee_div_def
          num_gt_def exact_def is_inf_def is_zero_def zero_signed_def inf_signed_def Let_def
          split: if_splits option.splits)
  qed
qed

section \<open>Facts about the alert manager\<close>

lemma set_update_subset: "set (AList.update k v al) \<subseteq> insert (k, v) (set al)"
  by (induction al) auto

lemma set_delete: "set (AList.delete k al) = {p \<in> set al. fst p \<noteq> k}"
  by (auto simp: AList.delete_eq)

lemma distinct_snd_update:
  "distinct (map snd al) \<Longrightarrow> v \<notin> snd ` set al \<Longrightarrow> distinct (map snd (AList.update k v al))"
proof (induction al)
  case Nil
  then show ?case by simp
next
  case (Cons p al)
  have "snd ` set (AList.update k v al) \<subseteq> insert v (snd ` set al)"
    using set_update_subset [of k v al] by force
  with Cons show ?case by auto
qed

lemma distinct_snd_delete:
  "distinct (map snd al) \<Longrightarrow> distinct (map snd (AList.delete k al))"
  by (simp add: AList.delete_eq distinct_map_filter)

lemma metric_name_resolved_update:
  "metric_name ((h[r := (h ! r)\<lparr>resolved := b, resolved_timestamp := t\<rparr>]) ! q) = metric_name (h ! q)"
  by (cases "r < length h"; cases "r = q") (simp_all add: list_update_beyond)

lemma active_create:
  "active_alerts (snd (create_alert am now c m msg cur thr sev)) =
     AList.update (make_alert_id c m now) (length (alert_history am)) (active_alerts am)"
  by (simp add: create_alert_def Let_def)

lemma history_create:
  "alert_history (snd (create_alert am now c m msg cur thr sev)) =
     alert_history am @ [fst (create_alert am now c m msg cur thr sev)]"
  by (simp add: create_alert_def Let_def)

lemma fst_create_fields:
  "metric_name (fst (create_alert am now c m msg cur thr sev)) = m"
  "resolved (fst (create_alert am now c m msg cur thr sev)) = False"
  by (simp_all add: create_alert_def Let_def)

lemma wf_create:
  assumes "wf_manager am"
  shows "wf_manager (snd (create_alert am now c m msg cur thr sev))"
proof -
  let ?h = "alert_history am" and ?al = "active_alerts am"
  let ?a = "fst (create_alert am now c m msg cur thr sev)"
  let ?al' = "AList.update (make_alert_id c m now) (length ?h) ?al"
  from assms have fresh: "length ?h \<notin> snd ` set ?al"
    by (auto simp: wf_manager_def)
  have d1: "distinct (map fst ?al')"
    using assms by (simp add: wf_manager_def AList.distinct_update)
  have d2: "distinct (map snd ?al')"
    using assms fresh by (simp add: wf_manager_def distinct_snd_update)
  have "snd p < length (?h @ [?a]) \<and> \<not> resolved ((?h @ [?a]) ! snd p)" if "p \<in> set ?al'" for p
  proof -
    from that set_update_subset [of "make_alert_id c m now" "length ?h" ?al]
    consider "p = (make_alert_id c m now, length ?h)" | "p \<in> set ?al" by auto
    then show ?thesis
    proof cases
      case 1
      then show ?thesis by (simp add: fst_create_fields)
    next
      case 2
      with assms have "snd p < length ?h" "\<not> resolved (?h ! snd p)"
        by (auto simp: wf_manager_def)
      then show ?thesis by (simp add: nth_append)
    qed
  qed
  with d1 d2 show ?thesis
    by (simp add: wf_manager_def active_create history_create)
qed

lemma resolve_alert_Some:
  "map_of (active_alerts am) aid = Some r \<Longrightarrow>
   resolve_alert am now aid =
     (True, \<lparr>active_alerts = AList.delete aid (active_alerts am),
             alert_history = (alert_history am)
               [r := (alert_history am ! r)\<lparr>resolved := True, resolved_timestamp := Some now\<rparr>]\<rparr>)"
  by (simp add: resolve_alert_def)

lemma resolve_alert_None:
  "map_of (active_alerts am) aid = None \<Longrightarrow> resolve_alert am now aid = (False, am)"
  by (simp add: resolve_alert_def)

lemma distinct_snd_eq:
  "distinct (map snd al) \<Longrightarrow> (a, r) \<in> set al \<Longrightarrow> (b, r) \<in> set al \<Longrightarrow> a = b"
  by (induction al) force+

lemma wf_resolve:
  assumes "wf_manager am"
  shows "wf_manager (snd (resolve_alert am now aid))"
proof (cases "map_of (active_alerts am) aid")
  case None
  with assms show ?thesis by (simp add: resolve_alert_None)
next
  case (Some r)
  let ?h = "alert_history am" and ?al = "active_alerts am"
  from Some have mem: "(aid, r) \<in> set ?al" by (rule map_of_SomeD)
  let ?h' = "?h[r := (?h ! r)\<lparr>resolved := True, resolved_timestamp := Some now\<rparr>]"
  have "snd p < length ?h' \<and> \<not> resolved (?h' ! snd p)"
    if "p \<in> set (AList.delete aid ?al)" for p
  proof -
    from that have p: "p \<in> set ?al" "fst p \<noteq> aid" by (auto simp: set_delete)
    have "snd p \<noteq> r"
    proof
      assume "snd p = r"
      with p(1) have "(fst p, r) \<in> set ?al" by (metis prod.collapse)
      with assms mem have "aid = fst p"
        unfolding wf_manager_def using distinct_snd_eq by fast
      with p(2) show False by simp
    qed
    moreover from assms p(1) have "snd p < length ?h" "\<not> resolved (?h ! snd p)"
      by (auto simp: wf_manager_def)
    ultimately show ?thesis by simp
  qed
  then show ?thesis
    using assms
    by (simp add: resolve_alert_Some [OF Some] wf_manager_def AList.distinct_delete distinct_snd_delete)
qed

lemma dedup_resolve:
  assumes "dedup am"
  shows "dedup (snd (resolve_alert am now aid))"
proof (cases "map_of (active_alerts am) aid")
  case None
  with assms show ?thesis by (simp add: resolve_alert_None)
next
  case (Some r)
  show ?thesis
    using assms
    by (auto simp: resolve_alert_Some [OF Some] dedup_def metric_name_resolved_update set_delete)
qed

lemma wf_resolve_all: "wf_manager am \<Longrightarrow> wf_manager (resolve_all am now ids)"
  unfolding resolve_all_def by (induction ids arbitrary: am) (simp_all add: wf_resolve)

lemma dedup_resolve_all: "dedup am \<Longrightarrow> dedup (resolve_all am now ids)"
  unfolding resolve_all_def by (induction ids arbitrary: am) (simp_all add: dedup_resolve)

lemma existing_alert_None_iff:
  "existing_alert am m = None \<longleftrightarrow>
     (\<forall>p \<in> set (active_alerts am). metric_name (alert_history am ! snd p) \<noteq> m)"
  by (auto simp: existing_alert_def active_values_def find_None_iff)

lemma dedup_create:
  assumes wf: "wf_manager am" and dd: "dedup am" and none: "existing_alert am m = None"
  shows "dedup (snd (create_alert am now c m msg cur thr sev))"
proof -
  let ?h = "alert_history am" and ?al = "active_alerts am"
  let ?a = "fst (create_alert am now c m msg cur thr sev)"
  let ?new = "(make_alert_id c m now, length ?h)"
  let ?al' = "AList.update (make_alert_id c m now) (length ?h) ?al"
  have cases: "p = ?new \<or> (p \<in> set ?al \<and> p \<noteq> ?new)" if "p \<in> set ?al'" for p
    using that set_update_subset [of "make_alert_id c m now" "length ?h" ?al] by auto
  have old: "metric_name ((?h @ [?a]) ! snd p) = metric_name (?h ! snd p) \<and> metric_name (?h ! snd p) \<noteq> m"
    if "p \<in> set ?al" for p
  proof -
    from wf that have "snd p < length ?h" by (auto simp: wf_manager_def)
    with none that show ?thesis by (auto simp: nth_append existing_alert_None_iff)
  qed
  have new: "metric_name ((?h @ [?a]) ! snd ?new) = m"
    by (simp add: fst_create_fields)
  have "p = q"
    if "p \<in> set ?al'" "q \<in> set ?al'"
      "metric_name ((?h @ [?a]) ! snd p) = metric_name ((?h @ [?a]) ! snd q)" for p q
    using cases [OF that(1)] cases [OF that(2)] that(3) old new dd
    unfolding dedup_def by metis
  then show ?thesis
    unfolding dedup_def active_create history_create by blast
qed

lemma check_metric_inv:
  assumes "wf_manager am" "dedup am" "check_metric fmt th metrics now chk am = Inr am'"
  shows "wf_manager am' \<and> dedup am'"
  using assms
  by (auto simp: check_metric_def wf_create dedup_create wf_resolve_all dedup_resolve_all
      split: prod.splits option.splits if_splits sum.splits)

lemma run_checks_inv:
  "wf_manager am \<Longrightarrow> dedup am \<Longrightarrow>
   wf_manager (fst (run_checks fmt th metrics clock k cs am)) \<and>
   dedup (fst (run_checks fmt th metrics clock k cs am))"
proof (induction cs arbitrary: am k)
  case Nil
  then show ?case by simp
next
  case (Cons chk cs)
  show ?case
  proof (cases "check_metric fmt th metrics (clock k) chk am")
    case (Inl e)
    with Cons.prems show ?thesis by simp
  next
    case (Inr am')
    with Cons.prems have "wf_manager am' \<and> dedup am'"
      using check_metric_inv by blast
    with Cons.IH [of am' "Suc k"] Inr show ?thesis by simp
  qed
qed

lemma wf_new: "wf_manager new_alert_manager" "dedup new_alert_manager"
  by (simp_all add: wf_manager_def dedup_def new_alert_manager_def)

lemma evaluate_all_inv:
  "wf_manager am \<Longrightarrow> dedup am \<Longrightarrow>
   wf_manager (evaluate_all fmt th snaps am) \<and> dedup (evaluate_all fmt th snaps am)"
proof (induction snaps arbitrary: am)
  case Nil
  then show ?case by simp
next
  case (Cons sn snaps)
  obtain clock metrics where sn: "sn = (clock, metrics)" by (cases sn)
  from Cons.prems have "wf_manager (fst (check_thresholds fmt th clock metrics am)) \<and>
      dedup (fst (check_thresholds fmt th clock metrics am))"
    unfolding check_thresholds_def by (rule run_checks_inv)
  then show ?case using Cons.IH sn by simp
qed

lemma filter_unique_length:
  "distinct xs \<Longrightarrow> (\<forall>x\<in>set xs. \<forall>y\<in>set xs. P x \<and> P y \<longrightarrow> x = y) \<Longrightarrow> length (filter P xs) \<le> 1"
proof (induction xs)
  case Nil
  then show ?case by simp
next
  case (Cons a xs)
  show ?case
  proof (cases "P a")
    case True
    with Cons.prems have "filter P xs = []"
      by (auto simp: filter_empty_conv)
    with True show ?thesis by simp
  next
    case False
    with Cons show ?thesis by simp
  qed
qed

lemma dedup_count:
  assumes "wf_manager am" "dedup am"
  shows "length (filter (\<lambda>a. metric_name a = m) (active_values am)) \<le> 1"
proof -
  let ?P = "\<lambda>p. metric_name (alert_history am ! snd p) = m"
  have "distinct (active_alerts am)"
    using assms(1) by (simp add: wf_manager_def distinct_map)
  moreover have "\<forall>x\<in>set (active_alerts am). \<forall>y\<in>set (active_alerts am). ?P x \<and> ?P y \<longrightarrow> x = y"
    using assms(2) by (auto simp: dedup_def)
  ultimately have "length (filter ?P (active_alerts am)) \<le> 1"
    by (rule filter_unique_length)
  moreover have "filter (\<lambda>a. metric_name a = m) (active_values am) =
      map (\<lambda>(aid, r). alert_history am ! r) (filter ?P (active_alerts am))"
    by (simp add: active_values_def filter_map comp_def case_prod_beta)
  ultimately show ?thesis by simp
qed

lemma unresolved_for_le:
  "length (unresolved_for am m) \<le> length (filter (\<lambda>a. metric_name a = m) (active_values am))"
proof -
  let ?xs = "filter (\<lambda>a. metric_name a = m) (active_values am)"
  have "unresolved_for am m = filter (\<lambda>a. \<not> resolved a) ?xs"
    by (simp add: unresolved_for_def conj_commute)
  moreover have "length (filter (\<lambda>a. \<not> resolved a) ?xs) \<le> length ?xs"
    by (rule length_filter_le)
  ultimately show ?thesis by (simp only:)
qed

text \<open>
  The division of a value above a positive threshold returns as soon as both have a
  double.
\<close>

lemma truediv_returns:
  assumes "num_gt thr (PyInt 0)" and "num_gt cur thr"
    and "to_double cur = Inr x" and "to_double thr = Inr y"
  shows "\<exists>q. truediv cur thr = Inr q"
proof (cases thr)
  case ti: (PyInt b)
  with assms(1) have b: "1 \<le> b" by (simp add: num_gt_def exact_def)
  show ?thesis
  proof (cases cur)
    case (PyInt a)
    with assms(3) have "\<exists>f. float_of_int a = Inr f" by (simp add: to_double_def)
    then have "\<bar>real_of_int a\<bar> < overflow_bound" by (simp only: float_of_int_returns_iff)
    moreover have "\<bar>real_of_int a / real_of_int b\<bar> \<le> \<bar>real_of_int a\<bar>"
    proof -
      have "\<bar>real_of_int a / real_of_int b\<bar> = \<bar>real_of_int a\<bar> / real_of_int b"
        using b by simp
      also have "\<dots> \<le> \<bar>real_of_int a\<bar> / 1"
        using b by (intro divide_left_mono) simp_all
      finally show ?thesis by simp
    qed
    ultimately have "\<not> overflow_bound \<le> \<bar>real_of_int a / real_of_int b\<bar>" by linarith
    then obtain d where "round_to_double (real_of_int a / real_of_int b) = Some d"
      using round_to_double_None_iff [of "real_of_int a / real_of_int b"] by auto
    with PyInt ti b show ?thesis by (simp add: truediv_def)
  next
    case (PyFloat f)
    from assms(4) ti obtain d where d: "round_to_double (of_int b) = Some d" and y: "y = Finite d"
      by (auto simp: to_double_def float_of_int_def split: option.splits)
    have "d \<noteq> 0"
      using b by (intro round_to_double_nonzero [OF _ d]) simp
    with PyFloat ti d show ?thesis
      by (simp add: truediv_def to_double_def float_of_int_def float_div_def is_zero_def)
  qed
next
  case tf: (PyFloat t)
  with assms(1) have nz: "\<not> is_zero t"
    by (cases t) (auto simp: num_gt_def exact_def is_zero_def)
  show ?thesis
  proof (cases cur)
    case (PyInt a)
    with tf assms(3) nz show ?thesis
      by (simp add: truediv_def to_double_def float_div_def)
  next
    case (PyFloat f)
    with tf nz show ?thesis by (simp add: truediv_floats)
  qed
qed

text \<open>The tiers of \<^verbatim>\<open>_determine_severity\<close>, on the quotient that the division computed.\<close>

lemma determine_severity_tiers:
  assumes "truediv cur thr = Inr q"
  shows "\<exists>sev. determine_severity cur thr = Inr sev
      \<and> (fl_ge q (Finite 2) \<longrightarrow> sev = ''critical'')
      \<and> (fl_ge q (Finite (3 / 2)) \<and> fl_gt (Finite 2) q \<longrightarrow> sev = ''high'')
      \<and> (fl_ge q (Finite float_1_2) \<and> fl_gt (Finite (3 / 2)) q \<longrightarrow> sev = ''medium'')
      \<and> (fl_gt (Finite float_1_2) q \<longrightarrow> sev = ''low'')"
  using assms by (cases q) (auto simp: determine_severity_def fl_ge_def float_1_2_def)

text \<open>
  Three evaluations: the floats 1.2 over 1.0 give medium; the ints \<open>2 ^ 60 - 1\<close> over
  \<open>2 ^ 59\<close>, whose quotient rounds to \<^verbatim>\<open>2.0\<close>, give critical; the int \<open>10 ^ 400\<close> over
  100 raises OverflowError.
\<close>

lemma determine_severity_examples:
  "determine_severity (PyFloat (Finite float_1_2)) (PyFloat (Finite 1)) = Inr ''medium''"
  "determine_severity (PyInt (2 ^ 60 - 1)) (PyInt (2 ^ 59)) = Inr ''critical''"
  "determine_severity (PyInt (10 ^ 400)) (PyInt 100) = Inl OverflowError"
proof -
  have "round_to_double (float_1_2 / 1) = Some float_1_2"
    by (simp add: round_to_double_def ilog2_def compute_bitlen round_half_even_def Let_def
        float_1_2_def)
  then have "truediv (PyFloat (Finite float_1_2)) (PyFloat (Finite 1)) = Inr (Finite float_1_2)"
    by (simp add: truediv_floats is_zero_def ieee_div_def is_inf_def) (simp add: float_1_2_def)
  then show "determine_severity (PyFloat (Finite float_1_2)) (PyFloat (Finite 1)) = Inr ''medium''"
    by (simp only: determine_severity_def sum.case) (simp add: fl_ge_def float_1_2_def)
  have "round_to_double ((2 ^ 60 - 1) / 2 ^ 59) = Some 2"
    by (simp add: round_to_double_def ilog2_def compute_bitlen round_half_even_def Let_def)
  then have "truediv (PyInt (2 ^ 60 - 1)) (PyInt (2 ^ 59)) = Inr (Finite 2)"
    by (simp add: truediv_def)
  then show "determine_severity (PyInt (2 ^ 60 - 1)) (PyInt (2 ^ 59)) = Inr ''critical''"
    by (simp only: determine_severity_def sum.case) (simp add: fl_ge_def)
  have "round_to_double (10 ^ 400 / 100) = None"
    by (simp add: round_to_double_def)
  then have "truediv (PyInt (10 ^ 400)) (PyInt 100) = Inl OverflowError"
    by (simp add: truediv_def)
  then show "determine_severity (PyInt (10 ^ 400)) (PyInt 100) = Inl OverflowError"
    by (simp only: determine_severity_def sum.case)
qed

section \<open>The claims about alerts and monitoring\<close>

text \<open>
  C1. However many snapshots the threshold evaluation has processed since the alert
  manager was created, and whatever the thresholds, the clock readings and the metric
  values were, the active set holds at most one unresolved alert (indeed at most one
  alert) for any metric name; and a breach of a metric for which an active alert is
  found leaves the alert manager as it is, so no second alert is created.
\<close>

theorem engine_dedup:
  "length (unresolved_for (evaluate_all fmt th snaps new_alert_manager) m) \<le> 1
   \<and> length (filter (\<lambda>a. metric_name a = m)
        (active_values (evaluate_all fmt th snaps new_alert_manager))) \<le> 1
   \<and> (\<forall>am cur thr d c now.
        existing_alert am m \<noteq> None \<and> metrics m = Some cur \<and> th m = Some thr \<and> num_gt cur thr
        \<longrightarrow> check_metric fmt th metrics now (m, d, c) am = Inr am)"
proof -
  let ?am = "evaluate_all fmt th snaps new_alert_manager"
  have "wf_manager ?am \<and> dedup ?am"
    using wf_new by (rule evaluate_all_inv)
  then have c: "length (filter (\<lambda>a. metric_name a = m) (active_values ?am)) \<le> 1"
    using dedup_count by blast
  moreover from c unresolved_for_le [of ?am m] have "length (unresolved_for ?am m) \<le> 1"
    by (rule order_trans [rotated])
  moreover have "check_metric fmt th metrics now (m, d, c) am = Inr am"
    if "existing_alert am m \<noteq> None" "metrics m = Some cur" "th m = Some thr" "num_gt cur thr"
    for am cur thr d c now
    using that by (auto simp: check_metric_def)
  ultimately show ?thesis by blast
qed

text \<open>
  C2. When a metric with current value \<open>cur\<close> breaches its positive threshold \<open>thr\<close>, no
  active alert for it is found, and both values have a double (they are floats, or
  ints that \<^verbatim>\<open>float\<close> can convert, those of magnitude below \<open>overflow_bound\<close>), the
  division \<open>cur / thr\<close> returns a quotient \<open>q\<close> that is not a NaN, the evaluation creates
  one alert, and its severity follows \<open>q\<close> with inclusive lower bounds: \<open>q\<close> at least
  \<^verbatim>\<open>2.0\<close> is critical, from \<^verbatim>\<open>1.5\<close> up to \<^verbatim>\<open>2.0\<close> is high, from the double \<^verbatim>\<open>1.2\<close> up to
  \<^verbatim>\<open>1.5\<close> is medium, below the double \<^verbatim>\<open>1.2\<close> is low.
\<close>

theorem severity_tiers:
  assumes "num_gt thr (PyInt 0)" and "num_gt cur thr"
    and "metrics m = Some cur" and "th m = Some thr" and "existing_alert am m = None"
    and "to_double cur = Inr x" and "to_double thr = Inr y"
  shows "\<exists>q a am'. truediv cur thr = Inr q \<and> q \<noteq> NaN
      \<and> check_metric fmt th metrics now (m, d, c) am = Inr am'
      \<and> alert_history am' = alert_history am @ [a]
      \<and> map_of (active_alerts am') (alert_id a) = Some (length (alert_history am))
      \<and> (fl_ge q (Finite 2) \<longrightarrow> severity a = ''critical'')
      \<and> (fl_ge q (Finite (3 / 2)) \<and> fl_gt (Finite 2) q \<longrightarrow> severity a = ''high'')
      \<and> (fl_ge q (Finite float_1_2) \<and> fl_gt (Finite (3 / 2)) q \<longrightarrow> severity a = ''medium'')
      \<and> (fl_gt (Finite float_1_2) q \<longrightarrow> severity a = ''low'')"
proof -
  from assms(1,2,6,7) obtain q where q: "truediv cur thr = Inr q"
    using truediv_returns by blast
  then obtain sev where sev: "determine_severity cur thr = Inr sev"
    and tiers: "fl_ge q (Finite 2) \<longrightarrow> sev = ''critical''"
      "fl_ge q (Finite (3 / 2)) \<and> fl_gt (Finite 2) q \<longrightarrow> sev = ''high''"
      "fl_ge q (Finite float_1_2) \<and> fl_gt (Finite (3 / 2)) q \<longrightarrow> sev = ''medium''"
      "fl_gt (Finite float_1_2) q \<longrightarrow> sev = ''low''"
    using determine_severity_tiers [of cur thr q] by auto
  have nan: "q \<noteq> NaN"
    using assms(1,2) q by (rule truediv_not_nan)
  define msg where "msg = d @ '' excede el umbral: '' @ fmt x @ '' > '' @ fmt y"
  let ?res = "create_alert am now c m msg cur thr sev"
  have "check_metric fmt th metrics now (m, d, c) am = Inr (snd ?res)"
    using assms sev by (simp add: check_metric_def format_2f_def msg_def)
  moreover have "alert_history (snd ?res) = alert_history am @ [fst ?res]"
    by (rule history_create)
  moreover have "map_of (active_alerts (snd ?res)) (alert_id (fst ?res)) = Some (length (alert_history am))"
    by (simp add: create_alert_def Let_def AList.update_conv')
  moreover have "severity (fst ?res) = sev"
    by (simp add: create_alert_def Let_def)
  ultimately show ?thesis using q tiers nan by blast
qed

text \<open>
  C2 as stated, on the ratio of the values themselves, fails: with the connection
  count \<open>2 ^ 60 - 1\<close> over the threshold \<open>2 ^ 59\<close> the ratio lies between 1.5 and 2, yet
  the quotient that Python computes is \<^verbatim>\<open>2.0\<close> and the alert created is critical, not
  high.
\<close>

theorem severity_of_rounded_quotient:
  "num_gt (PyInt (2 ^ 59)) (PyInt 0) \<and> num_gt (PyInt (2 ^ 60 - 1)) (PyInt (2 ^ 59))
   \<and> (3 / 2 :: real) \<le> (2 ^ 60 - 1) / 2 ^ 59 \<and> (2 ^ 60 - 1) / 2 ^ 59 < (2 :: real)
   \<and> truediv (PyInt (2 ^ 60 - 1)) (PyInt (2 ^ 59)) = Inr (Finite 2)
   \<and> map severity (alert_history (fst (check_thresholds (\<lambda>x. [])
        [''connection_count'' \<mapsto> PyInt (2 ^ 59)] (\<lambda>k. 0)
        [''connection_count'' \<mapsto> PyInt (2 ^ 60 - 1)] new_alert_manager))) = [''critical'']"
proof -
  have r: "round_to_double ((2 ^ 60 - 1) / 2 ^ 59) = Some 2"
    by (simp add: round_to_double_def ilog2_def compute_bitlen round_half_even_def Let_def)
  have q: "truediv (PyInt (2 ^ 60 - 1)) (PyInt (2 ^ 59)) = Inr (Finite 2)"
    using r by (simp add: truediv_def)
  have s: "determine_severity (PyInt (2 ^ 60 - 1)) (PyInt (2 ^ 59)) = Inr ''critical''"
    by (simp only: determine_severity_def q sum.case) (simp add: fl_ge_def)
  have c1: "round_to_double (2 ^ 60 - 1) = Some (2 ^ 60)"
    by (simp add: round_to_double_def ilog2_def compute_bitlen round_half_even_def Let_def)
  have c2: "round_to_double (2 ^ 59) = Some (2 ^ 59)"
    by (simp add: round_to_double_def ilog2_def compute_bitlen round_half_even_def Let_def)
  have f1: "format_2f (\<lambda>x. []) (PyInt (2 ^ 60 - 1)) = Inr []"
    using c1 by (simp add: format_2f_def to_double_def float_of_int_def)
  have f2: "format_2f (\<lambda>x. []) (PyInt (2 ^ 59)) = Inr []"
    using c2 by (simp add: format_2f_def to_double_def float_of_int_def)
  have g: "num_gt (PyInt (2 ^ 60 - 1)) (PyInt (2 ^ 59))" "num_gt (PyInt (2 ^ 59)) (PyInt 0)"
    by (simp_all add: num_gt_def exact_def)
  have e: "existing_alert new_alert_manager ''connection_count'' = None"
    by (simp add: existing_alert_def active_values_def new_alert_manager_def)
  define th where "th = [''connection_count'' \<mapsto> PyInt (2 ^ 59)]"
  define ms where "ms = [''connection_count'' \<mapsto> PyInt (2 ^ 60 - 1)]"
  define fmt where "fmt = (\<lambda>x::pyfloat. [] :: string)"
  have look: "th ''connection_count'' = Some (PyInt (2 ^ 59))"
    "ms ''connection_count'' = Some (PyInt (2 ^ 60 - 1))"
    by (simp_all add: th_def ms_def)
  let ?am1 = "snd (create_alert new_alert_manager 0 ''connection'' ''connection_count''
          (''Conexiones activas'' @ '' excede el umbral: '' @ [] @ '' > '' @ [])
          (PyInt (2 ^ 60 - 1)) (PyInt (2 ^ 59)) ''critical'')"
  have m: "check_metric fmt th ms 0
        (''connection_count'', ''Conexiones activas'', ''connection'') new_alert_manager
      = Inr ?am1"
    unfolding check_metric_def fmt_def using g(1) e
    by (simp only: prod.case look option.case if_True s sum.case f1 f2)
  have rest: "check_metric fmt th ms now (mm, dd, cc) am = Inr am"
    if "mm \<noteq> ''connection_count''" for mm dd cc am now
    using that by (simp add: check_metric_def ms_def)
  have "fst (check_thresholds fmt th (\<lambda>k. 0) ms new_alert_manager) = ?am1"
    unfolding check_thresholds_def checks_def
    by (simp only: run_checks.simps m sum.case) (simp add: rest)
  then have "map severity (alert_history (fst (check_thresholds fmt th (\<lambda>k. 0) ms
      new_alert_manager))) = [''critical'']"
    by (simp add: create_alert_def new_alert_manager_def Let_def)
  moreover have "(3 / 2 :: real) \<le> (2 ^ 60 - 1) / 2 ^ 59" "(2 ^ 60 - 1) / 2 ^ 59 < (2 :: real)"
    by simp_all
  ultimately show ?thesis using q g unfolding th_def ms_def fmt_def by blast
qed

text \<open>
  An instance of the tiers of C2: the floats 120.0 over 100.0, whose quotient is the
  double \<^verbatim>\<open>1.2\<close>, give medium.
\<close>

theorem severity_tiers_witness:
  "\<exists>a am'. check_metric (\<lambda>x. []) [''cpu_usage'' \<mapsto> PyFloat (Finite 100)]
        [''cpu_usage'' \<mapsto> PyFloat (Finite 120)] 0
        (''cpu_usage'', ''Uso de CPU'', ''performance'') new_alert_manager = Inr am'
      \<and> alert_history am' = [a] \<and> severity a = ''medium''"
proof -
  have e: "existing_alert new_alert_manager ''cpu_usage'' = None"
    by (simp add: existing_alert_def active_values_def new_alert_manager_def)
  have q: "truediv (PyFloat (Finite 120)) (PyFloat (Finite 100)) = Inr (Finite float_1_2)"
    by (simp add: truediv_floats is_zero_def ieee_div_def is_inf_def float_1_2_nearest)
      (simp add: float_1_2_def)
  have g: "num_gt (PyFloat (Finite 100)) (PyInt 0)" "num_gt (PyFloat (Finite 120)) (PyFloat (Finite 100))"
    by (simp_all add: num_gt_def exact_def)
  have t: "to_double (PyFloat (Finite 120)) = Inr (Finite 120)"
    "to_double (PyFloat (Finite 100)) = Inr (Finite 100)"
    by (simp_all add: to_double_def)
  have ge: "fl_ge (Finite float_1_2) (Finite float_1_2)"
    and lt: "fl_gt (Finite (3 / 2)) (Finite float_1_2)"
    by (simp_all add: fl_ge_def float_1_2_def)
  from severity_tiers [OF g _ _ e t, of "[''cpu_usage'' \<mapsto> PyFloat (Finite 120)]"
      "[''cpu_usage'' \<mapsto> PyFloat (Finite 100)]" "\<lambda>x. []" 0 "''Uso de CPU''" "''performance''"]
    q ge lt
  show ?thesis by (auto simp: new_alert_manager_def)
qed

text \<open>An instance of the second part of C1: a repeated breach changes nothing.\<close>

theorem engine_dedup_witness:
  "existing_alert
      (snd (create_alert new_alert_manager 0 ''performance'' ''cpu_usage'' []
              (PyFloat (Finite 95)) (PyFloat (Finite 80)) ''low''))
      ''cpu_usage'' \<noteq> None
   \<and> check_metric (\<lambda>x. []) [''cpu_usage'' \<mapsto> PyFloat (Finite 80)]
       [''cpu_usage'' \<mapsto> PyFloat (Finite 95)] 1
       (''cpu_usage'', ''Uso de CPU'', ''performance'')
       (snd (create_alert new_alert_manager 0 ''performance'' ''cpu_usage'' []
               (PyFloat (Finite 95)) (PyFloat (Finite 80)) ''low''))
     = Inr (snd (create_alert new_alert_manager 0 ''performance'' ''cpu_usage'' []
                   (PyFloat (Finite 95)) (PyFloat (Finite 80)) ''low''))"
proof -
  let ?am = "snd (create_alert new_alert_manager 0 ''performance'' ''cpu_usage'' []
                    (PyFloat (Finite 95)) (PyFloat (Finite 80)) ''low'')"
  have ex: "existing_alert ?am ''cpu_usage'' \<noteq> None"
    by (simp add: existing_alert_def active_values_def create_alert_def new_alert_manager_def Let_def)
  have gt: "num_gt (PyFloat (Finite 95)) (PyFloat (Finite 80))"
    by (simp add: num_gt_def exact_def)
  from engine_dedup [of "\<lambda>x. []" "[''cpu_usage'' \<mapsto> PyFloat (Finite 80)]" "[]" "''cpu_usage''"
      "[''cpu_usage'' \<mapsto> PyFloat (Finite 95)]"]
  have "\<forall>am cur thr d c now.
        existing_alert am ''cpu_usage'' \<noteq> None
          \<and> [''cpu_usage'' \<mapsto> PyFloat (Finite 95)] ''cpu_usage'' = Some cur
          \<and> [''cpu_usage'' \<mapsto> PyFloat (Finite 80)] ''cpu_usage'' = Some thr \<and> num_gt cur thr
        \<longrightarrow> check_metric (\<lambda>x. []) [''cpu_usage'' \<mapsto> PyFloat (Finite 80)]
              [''cpu_usage'' \<mapsto> PyFloat (Finite 95)] now (''cpu_usage'', d, c) am = Inr am"
    by blast
  with ex gt show ?thesis by simp
qed

text \<open>
  C6. In a well-formed alert manager, resolving an id of the active set returns true,
  marks that Alert object resolved and stamps it with the time of the call (nothing else
  in the history changes), and removes the id from the active set; resolving an id that
  is not in the active set returns false and leaves the alert manager as it was.
\<close>

theorem resolve_alert_outcome:
  assumes "wf_manager am"
  shows "(aid \<in> fst ` set (active_alerts am) \<longrightarrow>
           (\<exists>r. map_of (active_alerts am) aid = Some r \<and> r < length (alert_history am)
              \<and> fst (resolve_alert am now aid)
              \<and> resolved (alert_history (snd (resolve_alert am now aid)) ! r)
              \<and> resolved_timestamp (alert_history (snd (resolve_alert am now aid)) ! r) = Some now
              \<and> alert_history (snd (resolve_alert am now aid)) =
                  (alert_history am)[r := (alert_history am ! r)\<lparr>resolved := True, resolved_timestamp := Some now\<rparr>]
              \<and> active_alerts (snd (resolve_alert am now aid)) = AList.delete aid (active_alerts am)
              \<and> aid \<notin> fst ` set (active_alerts (snd (resolve_alert am now aid)))))
       \<and> (aid \<notin> fst ` set (active_alerts am) \<longrightarrow> resolve_alert am now aid = (False, am))"
proof (intro conjI impI)
  assume "aid \<in> fst ` set (active_alerts am)"
  then obtain r where r: "map_of (active_alerts am) aid = Some r"
    by (metis map_of_eq_None_iff not_Some_eq)
  then have "(aid, r) \<in> set (active_alerts am)" by (rule map_of_SomeD)
  with assms have len: "r < length (alert_history am)"
    by (auto simp: wf_manager_def)
  show "\<exists>r. map_of (active_alerts am) aid = Some r \<and> r < length (alert_history am)
              \<and> fst (resolve_alert am now aid)
              \<and> resolved (alert_history (snd (resolve_alert am now aid)) ! r)
              \<and> resolved_timestamp (alert_history (snd (resolve_alert am now aid)) ! r) = Some now
              \<and> alert_history (snd (resolve_alert am now aid)) =
                  (alert_history am)[r := (alert_history am ! r)\<lparr>resolved := True, resolved_timestamp := Some now\<rparr>]
              \<and> active_alerts (snd (resolve_alert am now aid)) = AList.delete aid (active_alerts am)
              \<and> aid \<notin> fst ` set (active_alerts (snd (resolve_alert am now aid)))"
    using r len by (simp add: resolve_alert_Some [OF r] AList.delete_notin_dom)
next
  assume "aid \<notin> fst ` set (active_alerts am)"
  then have "map_of (active_alerts am) aid = None"
    by (simp add: map_of_eq_None_iff)
  then show "resolve_alert am now aid = (False, am)"
    by (rule resolve_alert_None)
qed

text \<open>An instance of C6: one active alert, resolved by its id; an unknown id.\<close>

theorem resolve_alert_outcome_witness:
  "wf_manager (snd (create_alert new_alert_manager 0 ''disk'' ''disk_usage'' []
        (PyFloat (Finite 95)) (PyFloat (Finite 90)) ''low''))
   \<and> fst (resolve_alert (snd (create_alert new_alert_manager 0 ''disk'' ''disk_usage'' []
        (PyFloat (Finite 95)) (PyFloat (Finite 90)) ''low'')) 7
        (make_alert_id ''disk'' ''disk_usage'' 0))
   \<and> resolve_alert (snd (create_alert new_alert_manager 0 ''disk'' ''disk_usage'' []
        (PyFloat (Finite 95)) (PyFloat (Finite 90)) ''low'')) 7 ''other''
       = (False, snd (create_alert new_alert_manager 0 ''disk'' ''disk_usage'' []
        (PyFloat (Finite 95)) (PyFloat (Finite 90)) ''low''))"
proof -
  let ?am = "snd (create_alert new_alert_manager 0 ''disk'' ''disk_usage'' []
        (PyFloat (Finite 95)) (PyFloat (Finite 90)) ''low'')"
  have wf: "wf_manager ?am"
    by (rule wf_create) (rule wf_new)
  have act: "active_alerts ?am = [(make_alert_id ''disk'' ''disk_usage'' 0, 0)]"
    by (simp add: create_alert_def new_alert_manager_def Let_def)
  have neq: "make_alert_id ''disk'' ''disk_usage'' 0 \<noteq> ''other''"
    by (simp add: make_alert_id_def)
  from resolve_alert_outcome [OF wf, of "make_alert_id ''disk'' ''disk_usage'' 0" 7]
    resolve_alert_outcome [OF wf, of "''other''" 7] wf act neq
  show ?thesis by auto
qed

section \<open>The metrics history\<close>

lemma store_metrics_length: "length (store_metrics h x) \<le> 1000"
  by (simp add: store_metrics_def Let_def)

lemma store_metrics_drop:
  "store_metrics h x = drop (length (h @ [x]) - 1000) (h @ [x])"
  by (simp add: store_metrics_def Let_def)

lemma foldl_store_metrics:
  "length h \<le> 1000 \<Longrightarrow>
   foldl store_metrics h xs = drop (length (h @ xs) - 1000) (h @ xs)"
proof (induction xs arbitrary: h)
  case Nil
  then show ?case by simp
next
  case (Cons x xs)
  let ?k = "length (h @ [x]) - 1000"
  have "foldl store_metrics (store_metrics h x) xs =
      drop (length (store_metrics h x @ xs) - 1000) (store_metrics h x @ xs)"
    by (rule Cons.IH) (rule store_metrics_length)
  also have "store_metrics h x @ xs = drop ?k (h @ x # xs)"
    by (simp add: store_metrics_drop)
  also have "drop (length (drop ?k (h @ x # xs)) - 1000) (drop ?k (h @ x # xs)) =
      drop (length (h @ x # xs) - 1000) (h @ x # xs)"
  proof -
    have "length (drop ?k (h @ x # xs)) - 1000 + ?k = length (h @ x # xs) - 1000"
      using Cons.prems by simp
    then show ?thesis by (simp only: drop_drop)
  qed
  finally show ?case by simp
qed

lemma history_monitoring_cycle:
  "metrics_history (monitoring_cycle fmt th clock ms (Some m)) = store_metrics (metrics_history ms) m"
  "metrics_history (monitoring_cycle fmt th clock ms None) = metrics_history ms"
  by (simp_all add: monitoring_cycle_def)

lemma history_monitoring_run:
  "metrics_history (monitoring_run fmt th (map (\<lambda>(clock, m). (clock, Some m)) inputs) ms) =
     foldl store_metrics (metrics_history ms) (map snd inputs)"
  unfolding monitoring_run_def
  by (induction inputs arbitrary: ms) (simp_all add: history_monitoring_cycle split: prod.splits)

text \<open>
  C4. After 1001 passes of the monitoring loop, each with a collected snapshot, on a
  monitoring system that starts with an empty history, the history is the list of the
  snapshots without the first one: it has 1000 entries, in the order of insertion, the
  most recent one last; and when the snapshots are pairwise different the first one does
  not occur in it.
\<close>

theorem history_bound:
  assumes "length inputs = 1001"
  shows "let h = metrics_history
            (monitoring_run fmt th (map (\<lambda>(clock, m). (clock, Some m)) inputs) new_monitoring_system)
         in h = tl (map snd inputs) \<and> length h = 1000 \<and> last h = snd (last inputs)
            \<and> (distinct (map snd inputs) \<longrightarrow> snd (hd inputs) \<notin> set h)"
proof -
  let ?xs = "map snd inputs"
  have h: "metrics_history
      (monitoring_run fmt th (map (\<lambda>(clock, m). (clock, Some m)) inputs) new_monitoring_system) = tl ?xs"
    using assms
    by (simp add: history_monitoring_run foldl_store_metrics new_monitoring_system_def drop_Suc)
  from assms obtain p ps where inputs: "inputs = p # ps" and ps: "length ps = 1000"
    by (cases inputs) simp_all
  from ps have "ps \<noteq> []" by auto
  then have "last (tl ?xs) = snd (last inputs)"
    by (simp add: inputs last_map)
  moreover have "length (tl ?xs) = 1000"
    using assms by simp
  moreover have "distinct ?xs \<longrightarrow> snd (hd inputs) \<notin> set (tl ?xs)"
    by (simp add: inputs)
  ultimately show ?thesis
    unfolding h Let_def by blast
qed

text \<open>An instance of C4: 1001 snapshots with the timestamps 0 to 1000.\<close>

theorem history_bound_witness:
  "length (map (\<lambda>k. (\<lambda>i::nat. 0::nat, \<lparr>snap_timestamp = k, snap_values = Map.empty\<rparr>)) [0..<1001]) = 1001
   \<and> (let h = metrics_history
            (monitoring_run (\<lambda>x. []) Map.empty
               (map (\<lambda>(clock, m). (clock, Some m))
                  (map (\<lambda>k. (\<lambda>i::nat. 0::nat, \<lparr>snap_timestamp = k, snap_values = Map.empty\<rparr>)) [0..<1001]))
               new_monitoring_system)
         in h = tl (map snd (map (\<lambda>k. (\<lambda>i::nat. 0::nat, \<lparr>snap_timestamp = k, snap_values = Map.empty\<rparr>)) [0..<1001]))
            \<and> length h = 1000
            \<and> last h = snd (last (map (\<lambda>k. (\<lambda>i::nat. 0::nat, \<lparr>snap_timestamp = k, snap_values = Map.empty\<rparr>)) [0..<1001]))
            \<and> (distinct (map snd (map (\<lambda>k. (\<lambda>i::nat. 0::nat, \<lparr>snap_timestamp = k, snap_values = Map.empty\<rparr>)) [0..<1001]))
                 \<longrightarrow> snd (hd (map (\<lambda>k. (\<lambda>i::nat. 0::nat, \<lparr>snap_timestamp = k, snap_values = Map.empty\<rparr>)) [0..<1001]))
                       \<notin> set h))"
proof -
  have len: "length (map (\<lambda>k. (\<lambda>i::nat. 0::nat, \<lparr>snap_timestamp = k, snap_values = Map.empty\<rparr>)) [0..<1001]) = 1001"
    by (simp del: upt_rec_numeral)
  from len history_bound [OF len, of "\<lambda>x. []" Map.empty] show ?thesis
    by (rule conjI)
qed

section \<open>Hysteresis and alert identity\<close>

text \<open>
  C3. With the threshold of \<^verbatim>\<open>cpu_usage\<close> configured as 0.0, the sample 1.0 (threshold
  plus one) makes the threshold evaluation raise ZeroDivisionError and creates no alert;
  the whole sequence 1.0, 1.0, -1.0 leaves a new alert manager without any alert, so
  there is neither a creation nor a resolution.
\<close>

theorem zero_threshold_breach_raises:
  "check_thresholds (\<lambda>x. []) [''cpu_usage'' \<mapsto> PyFloat (Finite 0)] (\<lambda>k. 0)
      [''cpu_usage'' \<mapsto> PyFloat (Finite 1)] new_alert_manager
     = (new_alert_manager, Some ZeroDivisionError)
   \<and> evaluate_all (\<lambda>x. []) [''cpu_usage'' \<mapsto> PyFloat (Finite 0)]
       [(\<lambda>k. 0, [''cpu_usage'' \<mapsto> PyFloat (Finite 1)]),
        (\<lambda>k. 1000000, [''cpu_usage'' \<mapsto> PyFloat (Finite 1)]),
        (\<lambda>k. 2000000, [''cpu_usage'' \<mapsto> PyFloat (Finite (- 1))])]
       new_alert_manager = new_alert_manager"
proof -
  have raise: "check_thresholds fmt [''cpu_usage'' \<mapsto> PyFloat (Finite 0)] clock
      [''cpu_usage'' \<mapsto> PyFloat (Finite 1)] new_alert_manager
     = (new_alert_manager, Some ZeroDivisionError)" for clock fmt
    by (simp add: check_thresholds_def checks_def check_metric_def existing_alert_def
        active_values_def new_alert_manager_def determine_severity_def truediv_floats
        is_zero_def num_gt_def exact_def)
  have recover: "check_thresholds fmt [''cpu_usage'' \<mapsto> PyFloat (Finite 0)] clock
      [''cpu_usage'' \<mapsto> PyFloat (Finite (- 1))] new_alert_manager
     = (new_alert_manager, None)" for clock fmt
    by (simp add: check_thresholds_def checks_def check_metric_def alerts_to_resolve_def
        resolve_all_def new_alert_manager_def num_gt_def exact_def)
  show ?thesis
    by (simp only: raise recover evaluate_all.simps fst_conv)
qed

text \<open>
  C7. Two calls of \<^verbatim>\<open>create_alert\<close> half a second apart, in the same whole second and
  with the same category and metric name: the two alerts get the same id, the second
  takes the first one's place in the active set, and the first stays in the history,
  unresolved and without an entry in the active set.
\<close>

theorem same_second_ids_collide:
  "let (a1, am1) = create_alert new_alert_manager 1700000000000000 ''connection''
                     ''database_connection'' connection_lost_message (PyInt 0) (PyInt 1) ''critical'';
       (a2, am2) = create_alert am1 1700000000500000 ''connection''
                     ''database_connection'' connection_lost_message (PyInt 0) (PyInt 1) ''critical''
   in alert_id a1 = ''connection_database_connection_1700000000''
      \<and> alert_id a2 = ''connection_database_connection_1700000000''
      \<and> timestamp a1 \<noteq> timestamp a2
      \<and> active_alerts am1 = [(alert_id a1, 0)]
      \<and> active_alerts am2 = [(alert_id a2, 1)]
      \<and> length (alert_history am2) = 2
      \<and> alert_history am2 ! 0 = a1 \<and> \<not> resolved a1
      \<and> length (active_values am2) = 1"
  by (simp add: create_alert_def new_alert_manager_def make_alert_id_def epoch_seconds_def
      str_of_nat.simps digit_char_def active_values_def Let_def)

section \<open>The connection check\<close>

text \<open>
  C8. When the reachability check returns false, the connection-check task returns
  False and creates exactly one alert: the history gains one unresolved alert with
  category connection, metric name database\_connection, current value 0, threshold 1
  and severity critical, the active set holds it under its id, and nothing else in the
  scheduler changes. When the check returns true, the task returns True and the state
  is as before.
\<close>

theorem connection_check:
  "(let res = check_database_connection (Inr False) now s;
        am = alert_manager (monitoring s);
        am' = alert_manager (monitoring (snd res))
    in fst res = Returned (BoolV False)
       \<and> (\<exists>a. alert_history am' = alert_history am @ [a]
             \<and> active_alerts am' = AList.update (alert_id a) (length (alert_history am)) (active_alerts am)
             \<and> map_of (active_alerts am') (alert_id a) = Some (length (alert_history am))
             \<and> category a = ''connection'' \<and> metric_name a = ''database_connection''
             \<and> current_value a = PyInt 0 \<and> threshold_value a = PyInt 1 \<and> severity a = ''critical''
             \<and> \<not> resolved a)
       \<and> metrics_history (monitoring (snd res)) = metrics_history (monitoring s)
       \<and> task_objects (snd res) = task_objects s
       \<and> scheduled_tasks (snd res) = scheduled_tasks s
       \<and> jobs (snd res) = jobs s)
   \<and> check_database_connection (Inr True) now s = (Returned (BoolV True), s)"
  by (simp add: check_database_connection_def create_alert_def Let_def AList.update_conv')

text \<open>An instance of C8: from a new scheduler, the alert is the only active one.\<close>

theorem connection_check_fresh:
  "let res = check_database_connection (Inr False) 0 new_task_scheduler;
       am' = alert_manager (monitoring (snd res))
   in length (active_values am') = 1
      \<and> category (hd (active_values am')) = ''connection''
      \<and> metric_name (hd (active_values am')) = ''database_connection''
      \<and> current_value (hd (active_values am')) = PyInt 0
      \<and> threshold_value (hd (active_values am')) = PyInt 1
      \<and> severity (hd (active_values am')) = ''critical''"
  using connection_check [of 0 new_task_scheduler]
  by (auto simp: Let_def new_task_scheduler_def new_monitoring_system_def new_alert_manager_def
      active_values_def)

section \<open>Facts about the scheduler\<close>

lemma untouchedD:
  assumes "untouched call" and "call s1 = (out, s2)"
  shows "task_objects s2 = task_objects s1" "scheduled_tasks s2 = scheduled_tasks s1"
    "jobs s2 = jobs s1"
proof -
  from assms(2) have "snd (call s1) = s2" by simp
  with assms(1) show "task_objects s2 = task_objects s1" "scheduled_tasks s2 = scheduled_tasks s1"
    "jobs s2 = jobs s1"
    unfolding untouched_def by metis+
qed

lemma begin_run_fields:
  "task_objects (begin_run s r now) =
     (task_objects s)[r := (task_objects s ! r)\<lparr>last_run := Some now,
        run_count := run_count (task_objects s ! r) + 1\<rparr>]"
  "scheduled_tasks (begin_run s r now) = scheduled_tasks s"
  "jobs (begin_run s r now) = jobs s"
  by (simp_all add: begin_run_def Let_def)

text \<open>What one execution does to the task object, the registry and the armed jobs.\<close>

lemma execute_task_returned:
  assumes "untouched call" and "r < length (task_objects s)"
    and "fst (call (begin_run s r now)) = Returned v"
  shows "task_objects (execute_task call s r now) =
      (task_objects s)[r := (task_objects s ! r)\<lparr>last_run := Some now,
         run_count := run_count (task_objects s ! r) + 1, last_error := None\<rparr>]"
    and "scheduled_tasks (execute_task call s r now) = scheduled_tasks s"
    and "jobs (execute_task call s r now) = jobs s"
proof -
  obtain s2 where c: "call (begin_run s r now) = (Returned v, s2)"
    using assms(3) by (cases "call (begin_run s r now)") simp
  note f = untouchedD [OF assms(1) c] begin_run_fields
  show "task_objects (execute_task call s r now) =
      (task_objects s)[r := (task_objects s ! r)\<lparr>last_run := Some now,
         run_count := run_count (task_objects s ! r) + 1, last_error := None\<rparr>]"
    using assms(2) by (simp add: execute_task_def c f)
  show "scheduled_tasks (execute_task call s r now) = scheduled_tasks s"
    by (simp add: execute_task_def c f)
  show "jobs (execute_task call s r now) = jobs s"
    by (simp add: execute_task_def c f)
qed

lemma execute_task_raised:
  assumes "untouched call" and "registered s r"
    and "fst (call (begin_run s r now)) = Raised msg"
  shows "task_objects (execute_task call s r now) =
      (task_objects s)[r := (task_objects s ! r)\<lparr>last_run := Some now,
         run_count := run_count (task_objects s ! r) + 1,
         error_count := error_count (task_objects s ! r) + 1, last_error := Some msg,
         enabled := enabled (task_objects s ! r) \<and> error_count (task_objects s ! r) + 1 < 5\<rparr>]"
    and "scheduled_tasks (execute_task call s r now) = scheduled_tasks s"
    and "jobs (execute_task call s r now) =
      (if 5 \<le> error_count (task_objects s ! r) + 1
       then clear (jobs s) (task_id (task_objects s ! r)) else jobs s)"
proof -
  obtain s2 where c: "call (begin_run s r now) = (Raised msg, s2)"
    using assms(3) by (cases "call (begin_run s r now)") simp
  note f = untouchedD [OF assms(1) c] begin_run_fields
  from assms(2) have len: "r < length (task_objects s)"
    and reg: "map_of (scheduled_tasks s) (task_id (task_objects s ! r)) = Some r"
    by (simp_all add: registered_def)
  show "task_objects (execute_task call s r now) =
      (task_objects s)[r := (task_objects s ! r)\<lparr>last_run := Some now,
         run_count := run_count (task_objects s ! r) + 1,
         error_count := error_count (task_objects s ! r) + 1, last_error := Some msg,
         enabled := enabled (task_objects s ! r) \<and> error_count (task_objects s ! r) + 1 < 5\<rparr>]"
    using len reg by (simp add: execute_task_def c f disable_task_def Let_def)
  show "scheduled_tasks (execute_task call s r now) = scheduled_tasks s"
    using len reg by (simp add: execute_task_def c f disable_task_def Let_def)
  show "jobs (execute_task call s r now) =
      (if 5 \<le> error_count (task_objects s ! r) + 1
       then clear (jobs s) (task_id (task_objects s ! r)) else jobs s)"
    using len reg by (simp add: execute_task_def c f disable_task_def Let_def)
qed

text \<open>The connection check is a callable of the kind \<open>untouched\<close> describes.\<close>

lemma untouched_check_database_connection:
  "untouched (check_database_connection conn now)"
  by (simp add: untouched_def check_database_connection_def split: sum.splits)

lemma registered_update:
  assumes "registered s r" and "task_objects s' = (task_objects s)[r := t']"
    and "task_id t' = task_id (task_objects s ! r)" and "scheduled_tasks s' = scheduled_tasks s"
  shows "registered s' r"
  using assms by (simp add: registered_def)

lemma jobs_ok_update:
  assumes "jobs_ok s" and "task_objects s' = (task_objects s)[r := t']"
    and "task_id t' = task_id (task_objects s ! r)" and "set (jobs s') \<subseteq> set (jobs s)"
  shows "jobs_ok s'"
proof -
  have "task_id (task_objects s' ! q) = task_id (task_objects s ! q)" for q
    using assms(2,3) by (cases "r < length (task_objects s)"; cases "q = r") (simp_all add: list_update_beyond)
  with assms(1,2,4) show ?thesis
    by (auto simp: jobs_ok_def)
qed

lemma clear_subset: "set (clear js tag) \<subseteq> set js"
  by (auto simp: clear_def)

lemma clear_no_tag: "j \<in> set (clear js tag) \<Longrightarrow> job_tag j \<noteq> tag"
  by (simp add: clear_def)

lemma not_armed_by_tag:
  assumes "jobs_ok s" and "\<forall>j \<in> set (jobs s). job_tag j \<noteq> task_id (task_objects s ! r)"
  shows "\<not> armed s r"
  using assms by (auto simp: armed_def jobs_ok_def)

text \<open>The state after one execution keeps the invariants and the task's id.\<close>

lemma execute_task_keeps:
  assumes u: "untouched call" and reg: "registered s r" and ok: "jobs_ok s"
  shows "registered (execute_task call s r now) r"
    and "jobs_ok (execute_task call s r now)"
    and "task_id (task_objects (execute_task call s r now) ! r) = task_id (task_objects s ! r)"
proof -
  let ?s' = "execute_task call s r now"
  from reg have len: "r < length (task_objects s)" by (simp add: registered_def)
  have "\<exists>t'. task_objects ?s' = (task_objects s)[r := t'] \<and> task_id t' = task_id (task_objects s ! r)
      \<and> scheduled_tasks ?s' = scheduled_tasks s \<and> set (jobs ?s') \<subseteq> set (jobs s)"
  proof (cases "fst (call (begin_run s r now))")
    case (Returned v)
    let ?t = "(task_objects s ! r)\<lparr>last_run := Some now,
         run_count := run_count (task_objects s ! r) + 1, last_error := None\<rparr>"
    from execute_task_returned [OF u len Returned] show ?thesis
      by (intro exI [of _ ?t]) simp
  next
    case (Raised msg)
    let ?t = "(task_objects s ! r)\<lparr>last_run := Some now,
         run_count := run_count (task_objects s ! r) + 1,
         error_count := error_count (task_objects s ! r) + 1, last_error := Some msg,
         enabled := enabled (task_objects s ! r) \<and> error_count (task_objects s ! r) + 1 < 5\<rparr>"
    from execute_task_raised [OF u reg Raised] clear_subset show ?thesis
      by (intro exI [of _ ?t]) simp
  qed
  then obtain t' where t': "task_objects ?s' = (task_objects s)[r := t']"
    "task_id t' = task_id (task_objects s ! r)" "scheduled_tasks ?s' = scheduled_tasks s"
    "set (jobs ?s') \<subseteq> set (jobs s)"
    by blast
  from reg t'(1,2,3) show "registered ?s' r" by (rule registered_update)
  from ok t'(1,2,4) show "jobs_ok ?s'" by (rule jobs_ok_update)
  from t'(1,2) len show "task_id (task_objects ?s' ! r) = task_id (task_objects s ! r)" by simp
qed

text \<open>Adding a task keeps the armed jobs well-formed.\<close>

lemma arm_jobs_ok:
  assumes "jobs_ok s" and "r < length (task_objects s)" and "arm accepts s c r = Inr s'"
  shows "jobs_ok s'"
  using assms by (auto simp: arm_def jobs_ok_def split: if_splits)

lemma schedule_task_jobs_ok:
  assumes "jobs_ok s" and "r < length (task_objects s)" and "schedule_task accepts s r = Inr s'"
  shows "jobs_ok s'"
  using assms
  by (auto simp: schedule_task_def Let_def split: if_splits pyval.splits dest: arm_jobs_ok)

lemma add_task_jobs_ok:
  assumes "jobs_ok s"
  shows "jobs_ok (snd (add_task accepts s tid name stype svalue en))"
proof -
  let ?task = "\<lparr>task_id = tid, task_name = name, schedule_type = stype, schedule_value = svalue,
              enabled = en, last_run = None, next_run = None, run_count = 0, error_count = 0,
              last_error = None\<rparr>"
  let ?s1 = "s\<lparr>task_objects := task_objects s @ [?task],
          scheduled_tasks := AList.update tid (length (task_objects s)) (scheduled_tasks s)\<rparr>"
  from assms have ok1: "jobs_ok ?s1"
    by (auto simp: jobs_ok_def nth_append)
  have len: "length (task_objects s) < length (task_objects ?s1)" by simp
  show ?thesis
    using assms ok1 schedule_task_jobs_ok [OF ok1 len]
    by (auto simp: add_task_def Let_def split: sum.splits)
qed

lemma raisedE: "raised out \<Longrightarrow> \<exists>msg. out = Raised msg"
  by (cases out) (simp_all add: raised_def)

text \<open>Repeated execution of a task whose callable always raises.\<close>

lemma failing_runs:
  assumes u: "untouched call" and f: "always_fails call"
    and reg: "registered s r" and ok: "jobs_ok s"
  shows "registered (execute_times call r clock n s) r
    \<and> jobs_ok (execute_times call r clock n s)
    \<and> task_id (task_objects (execute_times call r clock n s) ! r) = task_id (task_objects s ! r)
    \<and> error_count (task_objects (execute_times call r clock n s) ! r) = error_count (task_objects s ! r) + n
    \<and> run_count (task_objects (execute_times call r clock n s) ! r) = run_count (task_objects s ! r) + n
    \<and> enabled (task_objects (execute_times call r clock n s) ! r) =
        (enabled (task_objects s ! r) \<and> (n = 0 \<or> error_count (task_objects s ! r) + n < 5))
    \<and> (if 0 < n \<and> 5 \<le> error_count (task_objects s ! r) + n
        then \<forall>j \<in> set (jobs (execute_times call r clock n s)). job_tag j \<noteq> task_id (task_objects s ! r)
        else jobs (execute_times call r clock n s) = jobs s)"
proof (induction n)
  case 0
  from reg ok show ?case by simp
next
  case (Suc n)
  let ?sn = "execute_times call r clock n s"
  let ?s' = "execute_task call ?sn r (clock n)"
  from Suc.IH have regn: "registered ?sn r" and okn: "jobs_ok ?sn"
    and idn: "task_id (task_objects ?sn ! r) = task_id (task_objects s ! r)"
    and en: "error_count (task_objects ?sn ! r) = error_count (task_objects s ! r) + n"
    and rn: "run_count (task_objects ?sn ! r) = run_count (task_objects s ! r) + n"
    and enn: "enabled (task_objects ?sn ! r) =
        (enabled (task_objects s ! r) \<and> (n = 0 \<or> error_count (task_objects s ! r) + n < 5))"
    and jn: "if 0 < n \<and> 5 \<le> error_count (task_objects s ! r) + n
        then \<forall>j \<in> set (jobs ?sn). job_tag j \<noteq> task_id (task_objects s ! r)
        else jobs ?sn = jobs s"
    by blast+
  from regn have len: "r < length (task_objects ?sn)" by (simp add: registered_def)
  from f obtain msg where msg: "fst (call (begin_run ?sn r (clock n))) = Raised msg"
    unfolding always_fails_def using raisedE by blast
  note step = execute_task_raised [OF u regn msg]
  note keeps = execute_task_keeps [OF u regn okn, of "clock n"]
  have "error_count (task_objects ?s' ! r) = error_count (task_objects s ! r) + Suc n"
    using len en by (simp add: step(1))
  moreover have "run_count (task_objects ?s' ! r) = run_count (task_objects s ! r) + Suc n"
    using len rn by (simp add: step(1))
  moreover have "enabled (task_objects ?s' ! r) =
        (enabled (task_objects s ! r) \<and> (Suc n = 0 \<or> error_count (task_objects s ! r) + Suc n < 5))"
    using len en enn by (auto simp: step(1))
  moreover have "if 0 < Suc n \<and> 5 \<le> error_count (task_objects s ! r) + Suc n
        then \<forall>j \<in> set (jobs ?s'). job_tag j \<noteq> task_id (task_objects s ! r)
        else jobs ?s' = jobs s"
    using en idn jn by (auto simp: step(3) dest: clear_no_tag)
  ultimately show ?case
    using keeps idn by simp
qed

section \<open>The claims about the scheduler\<close>

text \<open>
  C5. A registered task object with no error so far, enabled, whose callable raises at
  every invocation and leaves the scheduler's task state alone, is executed \<open>n\<close> times:
  as long as \<open>n\<close> is below 5 the task is still enabled and the armed jobs are as they
  were; from the 5th failure on it is disabled and no armed job is bound to it, so no
  further automatic invocation can happen; its error count is \<open>n\<close>.
\<close>

theorem circuit_breaker:
  assumes "registered s r" and "jobs_ok s"
    and "error_count (task_objects s ! r) = 0" and "enabled (task_objects s ! r)"
    and "untouched call" and "always_fails call"
  shows "(n < 5 \<longrightarrow> enabled (task_objects (execute_times call r clock n s) ! r)
            \<and> jobs (execute_times call r clock n s) = jobs s)
    \<and> (5 \<le> n \<longrightarrow> \<not> enabled (task_objects (execute_times call r clock n s) ! r)
            \<and> \<not> armed (execute_times call r clock n s) r)
    \<and> error_count (task_objects (execute_times call r clock n s) ! r) = n
    \<and> run_count (task_objects (execute_times call r clock n s) ! r) = run_count (task_objects s ! r) + n"
proof -
  let ?sn = "execute_times call r clock n s"
  note runs = failing_runs [OF assms(5,6,1,2), of clock n]
  have "\<not> armed ?sn r" if "5 \<le> n"
  proof (rule not_armed_by_tag)
    from runs show "jobs_ok ?sn" by blast
    from runs that assms(3)
    show "\<forall>j \<in> set (jobs ?sn). job_tag j \<noteq> task_id (task_objects ?sn ! r)"
      by auto
  qed
  moreover from runs assms(3,4) have "n < 5 \<longrightarrow> enabled (task_objects ?sn ! r) \<and> jobs ?sn = jobs s"
    by auto
  moreover from runs assms(3,4) have "5 \<le> n \<longrightarrow> \<not> enabled (task_objects ?sn ! r)"
    by auto
  moreover from runs assms(3) have "error_count (task_objects ?sn ! r) = n"
    "run_count (task_objects ?sn ! r) = run_count (task_objects s ! r) + n"
    by auto
  ultimately show ?thesis by blast
qed

lemma added_interval_task:
  "task_objects (snd (add_task (\<lambda>c. True) new_task_scheduler tid name ''interval'' sv True)) =
     [\<lparr>task_id = tid, task_name = name, schedule_type = ''interval'', schedule_value = sv,
       enabled = True, last_run = None, next_run = None, run_count = 0, error_count = 0,
       last_error = None\<rparr>]"
  "scheduled_tasks (snd (add_task (\<lambda>c. True) new_task_scheduler tid name ''interval'' sv True)) =
     [(tid, 0)]"
  "jobs (snd (add_task (\<lambda>c. True) new_task_scheduler tid name ''interval'' sv True)) =
     [\<lparr>job_cadence = Every_seconds sv, job_target = 0, job_tag = tid\<rparr>]"
  by (simp_all add: add_task_def schedule_task_def arm_def new_task_scheduler_def Let_def)

text \<open>An instance of C5: a task added with a 60-second interval, failing four and five times.\<close>

theorem circuit_breaker_witness:
  "registered (snd (add_task (\<lambda>c. True) new_task_scheduler ''probe'' ''Probe'' ''interval'' (IntV 60) True)) 0
   \<and> armed (snd (add_task (\<lambda>c. True) new_task_scheduler ''probe'' ''Probe'' ''interval'' (IntV 60) True)) 0
   \<and> enabled (task_objects (execute_times (\<lambda>s. (Raised ''boom'', s)) 0 (\<lambda>k. k) 4
        (snd (add_task (\<lambda>c. True) new_task_scheduler ''probe'' ''Probe'' ''interval'' (IntV 60) True))) ! 0)
   \<and> \<not> enabled (task_objects (execute_times (\<lambda>s. (Raised ''boom'', s)) 0 (\<lambda>k. k) 5
        (snd (add_task (\<lambda>c. True) new_task_scheduler ''probe'' ''Probe'' ''interval'' (IntV 60) True))) ! 0)
   \<and> \<not> armed (execute_times (\<lambda>s. (Raised ''boom'', s)) 0 (\<lambda>k. k) 5
        (snd (add_task (\<lambda>c. True) new_task_scheduler ''probe'' ''Probe'' ''interval'' (IntV 60) True))) 0"
proof -
  let ?s = "snd (add_task (\<lambda>c. True) new_task_scheduler ''probe'' ''Probe'' ''interval'' (IntV 60) True)"
  let ?call = "\<lambda>s :: task_scheduler. (Raised ''boom'', s)"
  have reg: "registered ?s 0" by (simp add: registered_def added_interval_task)
  have ok: "jobs_ok ?s" by (simp add: jobs_ok_def added_interval_task)
  have e0: "error_count (task_objects ?s ! 0) = 0" by (simp add: added_interval_task)
  have en: "enabled (task_objects ?s ! 0)" by (simp add: added_interval_task)
  have u: "untouched ?call" by (simp add: untouched_def)
  have f: "always_fails ?call" by (simp add: always_fails_def raised_def)
  have a: "armed ?s 0" by (simp add: armed_def added_interval_task)
  from circuit_breaker [OF reg ok e0 en u f, of 4 "\<lambda>k. k"]
    circuit_breaker [OF reg ok e0 en u f, of 5 "\<lambda>k. k"] reg a
  show ?thesis by simp
qed

text \<open>\<^verbatim>\<open>_schedule_task\<close> asks the library for the requested job, if there is one.\<close>

lemma schedule_task_requested:
  assumes "schedule_type (task_objects s ! r) = stype"
    and "schedule_value (task_objects s ! r) = svalue"
    and "requested_cadence stype svalue = Some c"
  shows "schedule_task accepts s r = arm accepts s c r"
  using assms
  by (auto simp: schedule_task_def requested_cadence_def Let_def split: if_splits pyval.splits)

lemma add_task_fresh:
  assumes fresh: "tid \<notin> fst ` set (scheduled_tasks s)"
    and rec: "en \<longrightarrow> recognised accepts stype svalue"
  shows "\<exists>c. (en \<longrightarrow> requested_cadence stype svalue = Some c)
    \<and> add_task accepts s tid name stype svalue en =
      (Inr True,
       s\<lparr>task_objects := task_objects s @
            [\<lparr>task_id = tid, task_name = name, schedule_type = stype, schedule_value = svalue,
              enabled = en, last_run = None, next_run = None, run_count = 0, error_count = 0,
              last_error = None\<rparr>],
          scheduled_tasks := AList.update tid (length (task_objects s)) (scheduled_tasks s),
          jobs := (if en then jobs s @ [\<lparr>job_cadence = c, job_target = length (task_objects s),
                                         job_tag = tid\<rparr>]
                   else jobs s)\<rparr>)"
proof (cases en)
  case False
  with fresh show ?thesis
    by (simp add: add_task_def Let_def)
next
  case True
  with rec obtain c where c: "requested_cadence stype svalue = Some c" and acc: "accepts c"
    by (auto simp: recognised_def split: option.splits)
  let ?task = "\<lparr>task_id = tid, task_name = name, schedule_type = stype, schedule_value = svalue,
              enabled = en, last_run = None, next_run = None, run_count = 0, error_count = 0,
              last_error = None\<rparr>"
  let ?s1 = "s\<lparr>task_objects := task_objects s @ [?task],
          scheduled_tasks := AList.update tid (length (task_objects s)) (scheduled_tasks s)\<rparr>"
  have "schedule_task accepts ?s1 (length (task_objects s)) = arm accepts ?s1 c (length (task_objects s))"
    by (rule schedule_task_requested [OF _ _ c]) simp_all
  with fresh True acc c show ?thesis
    by (intro exI [of _ c]) (simp add: add_task_def arm_def Let_def)
qed

text \<open>
  C9, as the code has it. For a task id already in the registry, \<^verbatim>\<open>add_task\<close> returns
  false and leaves the scheduler as it was. For a fresh task id whose cadence, if the
  task is enabled, is one that \<^verbatim>\<open>_schedule_task\<close> recognises (interval, daily, monthly,
  or weekly on a weekday name) and the schedule library accepts, it returns true, stores
  the new task object under the id, and, if the task is enabled, adds one armed job
  with the cadence that the schedule type and value ask for, bound to that object and
  tagged with the id; if it is not enabled, it adds none. So the new task is armed if
  and only if it is enabled.
\<close>

theorem add_task_outcome:
  "(tid \<in> fst ` set (scheduled_tasks s) \<longrightarrow>
      add_task accepts s tid name stype svalue en = (Inr False, s))
   \<and> (tid \<notin> fst ` set (scheduled_tasks s) \<and> (en \<longrightarrow> recognised accepts stype svalue) \<longrightarrow>
        fst (add_task accepts s tid name stype svalue en) = Inr True
        \<and> task_objects (snd (add_task accepts s tid name stype svalue en)) = task_objects s @
            [\<lparr>task_id = tid, task_name = name, schedule_type = stype, schedule_value = svalue,
              enabled = en, last_run = None, next_run = None, run_count = 0, error_count = 0,
              last_error = None\<rparr>]
        \<and> scheduled_tasks (snd (add_task accepts s tid name stype svalue en)) =
            AList.update tid (length (task_objects s)) (scheduled_tasks s)
        \<and> registered (snd (add_task accepts s tid name stype svalue en)) (length (task_objects s))
        \<and> (en \<longrightarrow>
              (\<exists>c. requested_cadence stype svalue = Some c
                 \<and> jobs (snd (add_task accepts s tid name stype svalue en)) =
                     jobs s @ [\<lparr>job_cadence = c, job_target = length (task_objects s),
                                job_tag = tid\<rparr>]))
        \<and> (\<not> en \<longrightarrow> jobs (snd (add_task accepts s tid name stype svalue en)) = jobs s)
        \<and> (jobs_ok s \<longrightarrow>
              (armed (snd (add_task accepts s tid name stype svalue en)) (length (task_objects s))
                 \<longleftrightarrow> en)))"
proof (intro conjI impI)
  assume "tid \<in> fst ` set (scheduled_tasks s)"
  then show "add_task accepts s tid name stype svalue en = (Inr False, s)"
    by (simp add: add_task_def)
next
  assume "tid \<notin> fst ` set (scheduled_tasks s) \<and> (en \<longrightarrow> recognised accepts stype svalue)"
  then obtain c where rc: "en \<longrightarrow> requested_cadence stype svalue = Some c"
    and c: "add_task accepts s tid name stype svalue en =
      (Inr True,
       s\<lparr>task_objects := task_objects s @
            [\<lparr>task_id = tid, task_name = name, schedule_type = stype, schedule_value = svalue,
              enabled = en, last_run = None, next_run = None, run_count = 0, error_count = 0,
              last_error = None\<rparr>],
          scheduled_tasks := AList.update tid (length (task_objects s)) (scheduled_tasks s),
          jobs := (if en then jobs s @ [\<lparr>job_cadence = c, job_target = length (task_objects s),
                                         job_tag = tid\<rparr>]
                   else jobs s)\<rparr>)"
    using add_task_fresh by blast
  show "fst (add_task accepts s tid name stype svalue en) = Inr True"
    by (simp add: c)
  show "task_objects (snd (add_task accepts s tid name stype svalue en)) = task_objects s @
            [\<lparr>task_id = tid, task_name = name, schedule_type = stype, schedule_value = svalue,
              enabled = en, last_run = None, next_run = None, run_count = 0, error_count = 0,
              last_error = None\<rparr>]"
    by (simp add: c)
  show "scheduled_tasks (snd (add_task accepts s tid name stype svalue en)) =
            AList.update tid (length (task_objects s)) (scheduled_tasks s)"
    by (simp add: c)
  show "registered (snd (add_task accepts s tid name stype svalue en)) (length (task_objects s))"
    by (simp add: c registered_def AList.update_conv')
  have j: "jobs (snd (add_task accepts s tid name stype svalue en)) =
      (if en then jobs s @ [\<lparr>job_cadence = c, job_target = length (task_objects s),
                               job_tag = tid\<rparr>]
       else jobs s)"
    by (simp add: c)
  show "\<exists>c. requested_cadence stype svalue = Some c
      \<and> jobs (snd (add_task accepts s tid name stype svalue en)) =
          jobs s @ [\<lparr>job_cadence = c, job_target = length (task_objects s), job_tag = tid\<rparr>]"
    if en
    using that rc j by (intro exI [of _ c]) simp
  show "jobs (snd (add_task accepts s tid name stype svalue en)) = jobs s" if "\<not> en"
    using that j by simp
  show "armed (snd (add_task accepts s tid name stype svalue en)) (length (task_objects s)) \<longleftrightarrow> en"
    if "jobs_ok s"
    using that by (auto simp: c armed_def jobs_ok_def)
qed

text \<open>
  C9 as stated fails: a fresh, enabled weekly task whose value names no weekday is
  stored and \<^verbatim>\<open>add_task\<close> returns true, but nothing is armed.
\<close>

theorem unknown_weekday_not_armed:
  "''weekly_report'' \<notin> fst ` set (scheduled_tasks new_task_scheduler)
   \<and> fst (add_task (\<lambda>c. True) new_task_scheduler ''weekly_report'' ''Weekly report''
        ''weekly'' (StrV ''funday'') True) = Inr True
   \<and> map_of (scheduled_tasks (snd (add_task (\<lambda>c. True) new_task_scheduler ''weekly_report''
        ''Weekly report'' ''weekly'' (StrV ''funday'') True))) ''weekly_report'' = Some 0
   \<and> enabled (task_objects (snd (add_task (\<lambda>c. True) new_task_scheduler ''weekly_report''
        ''Weekly report'' ''weekly'' (StrV ''funday'') True)) ! 0)
   \<and> jobs (snd (add_task (\<lambda>c. True) new_task_scheduler ''weekly_report''
        ''Weekly report'' ''weekly'' (StrV ''funday'') True)) = []
   \<and> \<not> armed (snd (add_task (\<lambda>c. True) new_task_scheduler ''weekly_report''
        ''Weekly report'' ''weekly'' (StrV ''funday'') True)) 0"
  by (simp add: add_task_def schedule_task_def new_task_scheduler_def Let_def lower_def
      lower_char_def weekdays_def armed_def)

text \<open>An instance of C9: a weekly task is added, then a second task with the same id is refused.\<close>

theorem add_task_outcome_witness:
  "''probe'' \<notin> fst ` set (scheduled_tasks new_task_scheduler)
   \<and> recognised (\<lambda>c. True) ''weekly'' (StrV ''Sunday'')
   \<and> jobs_ok new_task_scheduler
   \<and> fst (add_task (\<lambda>c. True) new_task_scheduler ''probe'' ''Probe'' ''weekly'' (StrV ''Sunday'') True)
       = Inr True
   \<and> armed (snd (add_task (\<lambda>c. True) new_task_scheduler ''probe'' ''Probe'' ''weekly''
        (StrV ''Sunday'') True)) 0
   \<and> jobs (snd (add_task (\<lambda>c. True) new_task_scheduler ''probe'' ''Probe'' ''weekly''
        (StrV ''Sunday'') True))
      = [\<lparr>job_cadence = Every_weekday ''sunday'', job_target = 0, job_tag = ''probe''\<rparr>]
   \<and> ''probe'' \<in> fst ` set (scheduled_tasks
        (snd (add_task (\<lambda>c. True) new_task_scheduler ''probe'' ''Probe'' ''weekly''
           (StrV ''Sunday'') True)))
   \<and> add_task (\<lambda>c. True)
        (snd (add_task (\<lambda>c. True) new_task_scheduler ''probe'' ''Probe'' ''weekly''
           (StrV ''Sunday'') True))
        ''probe'' ''Other'' ''daily'' (StrV ''08:00'') True
      = (Inr False, snd (add_task (\<lambda>c. True) new_task_scheduler ''probe'' ''Probe'' ''weekly''
           (StrV ''Sunday'') True))"
proof -
  let ?s = "snd (add_task (\<lambda>c. True) new_task_scheduler ''probe'' ''Probe'' ''weekly''
      (StrV ''Sunday'') True)"
  have fresh: "''probe'' \<notin> fst ` set (scheduled_tasks new_task_scheduler)"
    by (simp add: new_task_scheduler_def)
  have rec: "recognised (\<lambda>c. True) ''weekly'' (StrV ''Sunday'')"
    by (simp add: recognised_def requested_cadence_def lower_def lower_char_def weekdays_def)
  have ok: "jobs_ok new_task_scheduler"
    by (simp add: jobs_ok_def new_task_scheduler_def)
  have len: "length (task_objects new_task_scheduler) = 0"
    by (simp add: new_task_scheduler_def)
  from add_task_outcome [of "''probe''" new_task_scheduler "\<lambda>c. True" "''Probe''" "''weekly''"
      "StrV ''Sunday''" True] fresh rec ok len
  have first: "fst (add_task (\<lambda>c. True) new_task_scheduler ''probe'' ''Probe'' ''weekly''
        (StrV ''Sunday'') True) = Inr True"
    "armed ?s 0"
    "scheduled_tasks ?s = AList.update ''probe'' 0 (scheduled_tasks new_task_scheduler)"
    "\<exists>c. requested_cadence ''weekly'' (StrV ''Sunday'') = Some c
       \<and> jobs ?s = jobs new_task_scheduler @ [\<lparr>job_cadence = c, job_target = 0, job_tag = ''probe''\<rparr>]"
    by simp_all
  have "requested_cadence ''weekly'' (StrV ''Sunday'') = Some (Every_weekday ''sunday'')"
    by (simp add: requested_cadence_def lower_def lower_char_def weekdays_def)
  with first(4) have job: "jobs ?s =
      [\<lparr>job_cadence = Every_weekday ''sunday'', job_target = 0, job_tag = ''probe''\<rparr>]"
    by (auto simp: new_task_scheduler_def)
  from first(3) have mem: "''probe'' \<in> fst ` set (scheduled_tasks ?s)"
    by (simp add: new_task_scheduler_def)
  from add_task_outcome [of "''probe''" ?s "\<lambda>c. True" "''Other''" "''daily''" "StrV ''08:00''" True] mem
  have "add_task (\<lambda>c. True) ?s ''probe'' ''Other'' ''daily'' (StrV ''08:00'') True = (Inr False, ?s)"
    by blast
  with fresh rec ok first(1,2) job mem show ?thesis by blast
qed

text \<open>What a run of executions does to the task object, relative to the state it starts from.\<close>

lemma execute_seq_effect:
  assumes u: "\<forall>c \<in> set calls. untouched (fst c)"
    and reg: "registered s r" and ok: "jobs_ok s"
  shows "registered (execute_seq calls r s) r
    \<and> jobs_ok (execute_seq calls r s)
    \<and> task_id (task_objects (execute_seq calls r s) ! r) = task_id (task_objects s ! r)
    \<and> error_count (task_objects (execute_seq calls r s) ! r) =
        error_count (task_objects s ! r) + failures calls r s
    \<and> run_count (task_objects (execute_seq calls r s) ! r) =
        run_count (task_objects s ! r) + length calls
    \<and> enabled (task_objects (execute_seq calls r s) ! r) =
        (enabled (task_objects s ! r)
         \<and> \<not> (0 < failures calls r s \<and> 5 \<le> error_count (task_objects s ! r) + failures calls r s))
    \<and> (if 0 < failures calls r s \<and> 5 \<le> error_count (task_objects s ! r) + failures calls r s
        then \<forall>j \<in> set (jobs (execute_seq calls r s)). job_tag j \<noteq> task_id (task_objects s ! r)
        else jobs (execute_seq calls r s) = jobs s)
    \<and> (calls \<noteq> [] \<longrightarrow> last_run (task_objects (execute_seq calls r s) ! r) = Some (snd (last calls)))"
  using assms
proof (induction calls arbitrary: s)
  case Nil
  then show ?case by simp
next
  case (Cons c calls)
  obtain call now where c: "c = (call, now)" by (cases c)
  let ?s1 = "execute_task call s r now"
  let ?se = "execute_seq calls r ?s1"
  let ?F = "failures calls r ?s1"
  from Cons.prems(1) c have uc: "untouched call" and urest: "\<forall>c \<in> set calls. untouched (fst c)"
    by simp_all
  note keeps = execute_task_keeps [OF uc Cons.prems(2,3), of now]
  from Cons.prems(2) have len: "r < length (task_objects s)" by (simp add: registered_def)
  have step: "error_count (task_objects ?s1 ! r) =
        error_count (task_objects s ! r) + (if raised (fst (call (begin_run s r now))) then 1 else 0)
      \<and> run_count (task_objects ?s1 ! r) = run_count (task_objects s ! r) + 1
      \<and> last_run (task_objects ?s1 ! r) = Some now
      \<and> enabled (task_objects ?s1 ! r) =
          (enabled (task_objects s ! r)
           \<and> \<not> (raised (fst (call (begin_run s r now))) \<and> 5 \<le> error_count (task_objects s ! r) + 1))
      \<and> jobs ?s1 =
          (if raised (fst (call (begin_run s r now))) \<and> 5 \<le> error_count (task_objects s ! r) + 1
           then clear (jobs s) (task_id (task_objects s ! r)) else jobs s)"
  proof (cases "fst (call (begin_run s r now))")
    case (Returned v)
    from execute_task_returned [OF uc len Returned] len Returned show ?thesis
      by (simp add: raised_def)
  next
    case (Raised msg)
    from execute_task_raised [OF uc Cons.prems(2) Raised] len Raised show ?thesis
      by (auto simp: raised_def)
  qed
  from Cons.IH [OF urest keeps(1,2)]
  have ih: "registered ?se r" "jobs_ok ?se"
    "task_id (task_objects ?se ! r) = task_id (task_objects ?s1 ! r)"
    "error_count (task_objects ?se ! r) = error_count (task_objects ?s1 ! r) + ?F"
    "run_count (task_objects ?se ! r) = run_count (task_objects ?s1 ! r) + length calls"
    "enabled (task_objects ?se ! r) =
        (enabled (task_objects ?s1 ! r) \<and> \<not> (0 < ?F \<and> 5 \<le> error_count (task_objects ?s1 ! r) + ?F))"
    "if 0 < ?F \<and> 5 \<le> error_count (task_objects ?s1 ! r) + ?F
        then \<forall>j \<in> set (jobs ?se). job_tag j \<noteq> task_id (task_objects ?s1 ! r)
        else jobs ?se = jobs ?s1"
    "calls \<noteq> [] \<longrightarrow> last_run (task_objects ?se ! r) = Some (snd (last calls))"
    by blast+
  have fl: "failures (c # calls) r s = (if raised (fst (call (begin_run s r now))) then 1 else 0) + ?F"
    by (simp add: c)
  have sq: "execute_seq (c # calls) r s = ?se"
    by (simp add: c)
  have "error_count (task_objects ?se ! r) = error_count (task_objects s ! r) + failures (c # calls) r s"
    using ih(4) step fl by simp
  moreover have "run_count (task_objects ?se ! r) = run_count (task_objects s ! r) + length (c # calls)"
    using ih(5) step by simp
  moreover have "enabled (task_objects ?se ! r) =
        (enabled (task_objects s ! r)
         \<and> \<not> (0 < failures (c # calls) r s
              \<and> 5 \<le> error_count (task_objects s ! r) + failures (c # calls) r s))"
    using ih(6) step fl by (auto split: if_splits)
  moreover have "if 0 < failures (c # calls) r s
          \<and> 5 \<le> error_count (task_objects s ! r) + failures (c # calls) r s
        then \<forall>j \<in> set (jobs ?se). job_tag j \<noteq> task_id (task_objects s ! r)
        else jobs ?se = jobs s"
    using ih(7) step fl keeps(3) by (auto split: if_splits dest: clear_no_tag)
  moreover have "last_run (task_objects ?se ! r) = Some (snd (last (c # calls)))"
  proof (cases "calls = []")
    case True
    with step show ?thesis by (simp add: c)
  next
    case False
    with ih(8) show ?thesis by simp
  qed
  ultimately show ?case
    using ih(1,2,3) keeps(3) unfolding sq by simp
qed

text \<open>
  C10. For a registered task object and a run of executions whose callables leave the
  scheduler's task state alone: the error count after the run is the error count before
  plus the number of invocations that raised, whatever successes lie between them; the
  run count grows by the number of executions and the last-run time is that of the last
  execution, whether it failed or not; once the error count has reached 5 by a failure
  of the run the task is disabled and no armed job is bound to it. One successful
  execution leaves the error count and the enabled flag as they are and clears the last
  error; one failing execution still counts as a run and sets the last-run time. Both
  are already set in the state that the callable is invoked on.
\<close>

theorem error_count_cumulative:
  assumes "\<forall>c \<in> set calls. untouched (fst c)" and "registered s r" and "jobs_ok s"
  shows "error_count (task_objects (execute_seq calls r s) ! r) =
        error_count (task_objects s ! r) + failures calls r s
    \<and> run_count (task_objects (execute_seq calls r s) ! r) =
        run_count (task_objects s ! r) + length calls
    \<and> (calls \<noteq> [] \<longrightarrow> last_run (task_objects (execute_seq calls r s) ! r) = Some (snd (last calls)))
    \<and> (0 < failures calls r s \<and> 5 \<le> error_count (task_objects s ! r) + failures calls r s \<longrightarrow>
          \<not> enabled (task_objects (execute_seq calls r s) ! r) \<and> \<not> armed (execute_seq calls r s) r)
    \<and> (untouched call \<and> fst (call (begin_run s r now)) = Returned v \<longrightarrow>
          error_count (task_objects (execute_task call s r now) ! r) = error_count (task_objects s ! r)
          \<and> last_error (task_objects (execute_task call s r now) ! r) = None
          \<and> enabled (task_objects (execute_task call s r now) ! r) = enabled (task_objects s ! r)
          \<and> run_count (task_objects (execute_task call s r now) ! r) = run_count (task_objects s ! r) + 1
          \<and> last_run (task_objects (execute_task call s r now) ! r) = Some now)
    \<and> (untouched call \<and> fst (call (begin_run s r now)) = Raised msg \<longrightarrow>
          error_count (task_objects (execute_task call s r now) ! r) = error_count (task_objects s ! r) + 1
          \<and> last_error (task_objects (execute_task call s r now) ! r) = Some msg
          \<and> run_count (task_objects (execute_task call s r now) ! r) = run_count (task_objects s ! r) + 1
          \<and> last_run (task_objects (execute_task call s r now) ! r) = Some now)
    \<and> run_count (task_objects (begin_run s r now) ! r) = run_count (task_objects s ! r) + 1
    \<and> last_run (task_objects (begin_run s r now) ! r) = Some now"
proof -
  let ?se = "execute_seq calls r s"
  note eff = execute_seq_effect [OF assms]
  from assms(2) have len: "r < length (task_objects s)" by (simp add: registered_def)
  have "\<not> enabled (task_objects ?se ! r) \<and> \<not> armed ?se r"
    if "0 < failures calls r s \<and> 5 \<le> error_count (task_objects s ! r) + failures calls r s"
  proof
    from eff that show "\<not> enabled (task_objects ?se ! r)" by simp
    show "\<not> armed ?se r"
    proof (rule not_armed_by_tag)
      from eff show "jobs_ok ?se" by blast
      from eff that show "\<forall>j \<in> set (jobs ?se). job_tag j \<noteq> task_id (task_objects ?se ! r)"
        by simp
    qed
  qed
  moreover have "error_count (task_objects (execute_task call s r now) ! r) = error_count (task_objects s ! r)
          \<and> last_error (task_objects (execute_task call s r now) ! r) = None
          \<and> enabled (task_objects (execute_task call s r now) ! r) = enabled (task_objects s ! r)
          \<and> run_count (task_objects (execute_task call s r now) ! r) = run_count (task_objects s ! r) + 1
          \<and> last_run (task_objects (execute_task call s r now) ! r) = Some now"
    if "untouched call \<and> fst (call (begin_run s r now)) = Returned v"
    using that len execute_task_returned(1) [of call r s now v] by simp
  moreover have "error_count (task_objects (execute_task call s r now) ! r) = error_count (task_objects s ! r) + 1
          \<and> last_error (task_objects (execute_task call s r now) ! r) = Some msg
          \<and> run_count (task_objects (execute_task call s r now) ! r) = run_count (task_objects s ! r) + 1
          \<and> last_run (task_objects (execute_task call s r now) ! r) = Some now"
    if "untouched call \<and> fst (call (begin_run s r now)) = Raised msg"
    using that len assms(2) execute_task_raised(1) [of call s r now msg] by simp
  moreover have "run_count (task_objects (begin_run s r now) ! r) = run_count (task_objects s ! r) + 1"
    "last_run (task_objects (begin_run s r now) ! r) = Some now"
    using len by (simp_all add: begin_run_fields)
  ultimately show ?thesis
    using eff by blast
qed

text \<open>An instance of C10: five failures with two successes in between.\<close>

theorem error_count_cumulative_witness:
  "registered (snd (add_task (\<lambda>c. True) new_task_scheduler ''probe'' ''Probe'' ''interval'' (IntV 60) True)) 0
   \<and> failures
        [(\<lambda>s. (Raised ''a'', s), 1), (\<lambda>s. (Returned NoneV, s), 2), (\<lambda>s. (Raised ''b'', s), 3),
         (\<lambda>s. (Raised ''c'', s), 4), (\<lambda>s. (Returned NoneV, s), 5), (\<lambda>s. (Raised ''d'', s), 6),
         (\<lambda>s. (Raised ''e'', s), 7)] 0
        (snd (add_task (\<lambda>c. True) new_task_scheduler ''probe'' ''Probe'' ''interval'' (IntV 60) True)) = 5
   \<and> error_count (task_objects (execute_seq
        [(\<lambda>s. (Raised ''a'', s), 1), (\<lambda>s. (Returned NoneV, s), 2), (\<lambda>s. (Raised ''b'', s), 3),
         (\<lambda>s. (Raised ''c'', s), 4), (\<lambda>s. (Returned NoneV, s), 5), (\<lambda>s. (Raised ''d'', s), 6),
         (\<lambda>s. (Raised ''e'', s), 7)] 0
        (snd (add_task (\<lambda>c. True) new_task_scheduler ''probe'' ''Probe'' ''interval'' (IntV 60) True))) ! 0) = 5
   \<and> run_count (task_objects (execute_seq
        [(\<lambda>s. (Raised ''a'', s), 1), (\<lambda>s. (Returned NoneV, s), 2), (\<lambda>s. (Raised ''b'', s), 3),
         (\<lambda>s. (Raised ''c'', s), 4), (\<lambda>s. (Returned NoneV, s), 5), (\<lambda>s. (Raised ''d'', s), 6),
         (\<lambda>s. (Raised ''e'', s), 7)] 0
        (snd (add_task (\<lambda>c. True) new_task_scheduler ''probe'' ''Probe'' ''interval'' (IntV 60) True))) ! 0) = 7
   \<and> \<not> enabled (task_objects (execute_seq
        [(\<lambda>s. (Raised ''a'', s), 1), (\<lambda>s. (Returned NoneV, s), 2), (\<lambda>s. (Raised ''b'', s), 3),
         (\<lambda>s. (Raised ''c'', s), 4), (\<lambda>s. (Returned NoneV, s), 5), (\<lambda>s. (Raised ''d'', s), 6),
         (\<lambda>s. (Raised ''e'', s), 7)] 0
        (snd (add_task (\<lambda>c. True) new_task_scheduler ''probe'' ''Probe'' ''interval'' (IntV 60) True))) ! 0)
   \<and> \<not> armed (execute_seq
        [(\<lambda>s. (Raised ''a'', s), 1), (\<lambda>s. (Returned NoneV, s), 2), (\<lambda>s. (Raised ''b'', s), 3),
         (\<lambda>s. (Raised ''c'', s), 4), (\<lambda>s. (Returned NoneV, s), 5), (\<lambda>s. (Raised ''d'', s), 6),
         (\<lambda>s. (Raised ''e'', s), 7)] 0
        (snd (add_task (\<lambda>c. True) new_task_scheduler ''probe'' ''Probe'' ''interval'' (IntV 60) True))) 0"
proof -
  let ?s = "snd (add_task (\<lambda>c. True) new_task_scheduler ''probe'' ''Probe'' ''interval'' (IntV 60) True)"
  let ?calls = "[(\<lambda>s :: task_scheduler. (Raised ''a'', s), 1 :: nat), (\<lambda>s. (Returned NoneV, s), 2),
         (\<lambda>s. (Raised ''b'', s), 3), (\<lambda>s. (Raised ''c'', s), 4), (\<lambda>s. (Returned NoneV, s), 5),
         (\<lambda>s. (Raised ''d'', s), 6), (\<lambda>s. (Raised ''e'', s), 7)]"
  have reg: "registered ?s 0" by (simp add: registered_def added_interval_task)
  have ok: "jobs_ok ?s" by (simp add: jobs_ok_def added_interval_task)
  have e0: "error_count (task_objects ?s ! 0) = 0" by (simp add: added_interval_task)
  have r0: "run_count (task_objects ?s ! 0) = 0" by (simp add: added_interval_task)
  have u: "\<forall>c \<in> set ?calls. untouched (fst c)" by (simp add: untouched_def)
  have fl: "failures ?calls 0 ?s = 5" by (simp add: raised_def)
  from error_count_cumulative [OF u reg ok, of "\<lambda>s. (Returned NoneV, s)" 0 NoneV "[]"] e0 r0 fl reg
  show ?thesis by (simp del: execute_seq.simps failures.simps)
qed

section \<open>Hysteresis for a non-zero threshold\<close>

lemma check_metric_absent:
  "metrics (fst chk) = None \<Longrightarrow> check_metric fmt th metrics now chk am = Inr am"
  by (cases chk) (simp add: check_metric_def)

lemma run_checks_absent:
  "\<forall>chk \<in> set cs. metrics (fst chk) = None \<Longrightarrow>
   run_checks fmt th metrics clock k cs am = (am, None)"
  by (induction cs arbitrary: k) (simp_all add: check_metric_absent)

text \<open>
  With a snapshot that holds the one metric \<open>M\<close>, the loop over the checks does what its
  iteration for \<open>M\<close> does.
\<close>

lemma run_checks_single:
  assumes "distinct (map fst cs)" and "(M, d, c) \<in> set cs"
    and only: "\<And>m. m \<noteq> M \<Longrightarrow> metrics m = None"
  shows "\<exists>i. run_checks fmt th metrics clock k cs am =
      (case check_metric fmt th metrics (clock (k + i)) (M, d, c) am of
         Inl e \<Rightarrow> (am, Some e) | Inr am' \<Rightarrow> (am', None))"
  using assms(1,2)
proof (induction cs arbitrary: k)
  case Nil
  then show ?case by simp
next
  case (Cons chk cs)
  show ?case
  proof (cases "chk = (M, d, c)")
    case True
    with Cons.prems(1) have "\<forall>x \<in> set cs. fst x \<noteq> M"
      by (auto simp: image_iff)
    with only have "\<forall>x \<in> set cs. metrics (fst x) = None"
      by blast
    then have rest: "run_checks fmt th metrics clock (Suc k) cs am' = (am', None)" for am'
      by (rule run_checks_absent)
    show ?thesis
      unfolding True
      by (intro exI [of _ 0], cases "check_metric fmt th metrics (clock k) (M, d, c) am")
        (simp_all only: run_checks.simps sum.case rest add_0_right)
  next
    case False
    with Cons.prems have mem: "(M, d, c) \<in> set cs" and "fst chk \<noteq> M"
      by (auto simp: image_iff)
    with only have skip: "check_metric fmt th metrics (clock k) chk am = Inr am"
      by (simp add: check_metric_absent)
    from Cons.prems(1) have "distinct (map fst cs)" by simp
    from Cons.IH [OF this mem, of "Suc k"] obtain i where
      ih: "run_checks fmt th metrics clock (Suc k) cs am =
        (case check_metric fmt th metrics (clock (Suc k + i)) (M, d, c) am of
           Inl e \<Rightarrow> (am, Some e) | Inr am' \<Rightarrow> (am', None))"
      by blast
    show ?thesis
      by (intro exI [of _ "Suc i"])
        (simp only: run_checks.simps skip sum.case ih add_Suc_right add_Suc)
  qed
qed

lemma check_thresholds_single:
  assumes "(M, d, c) \<in> set checks"
  shows "\<exists>now. check_thresholds fmt th clock [M \<mapsto> v] am =
      (case check_metric fmt th [M \<mapsto> v] now (M, d, c) am of
         Inl e \<Rightarrow> (am, Some e) | Inr am' \<Rightarrow> (am', None))"
proof -
  have "distinct (map fst checks)" by (simp add: checks_def)
  moreover have "[M \<mapsto> v] m = None" if "m \<noteq> M" for m
    using that by simp
  ultimately obtain i where "run_checks fmt th [M \<mapsto> v] clock 0 checks am =
      (case check_metric fmt th [M \<mapsto> v] (clock (0 + i)) (M, d, c) am of
         Inl e \<Rightarrow> (am, Some e) | Inr am' \<Rightarrow> (am', None))"
    using run_checks_single [OF _ assms, of "[M \<mapsto> v]" fmt th clock 0 am] by blast
  then show ?thesis unfolding check_thresholds_def by blast
qed

lemma filter_update_single:
  "\<forall>p \<in> set al. \<not> P p \<Longrightarrow> P (k, v) \<Longrightarrow> filter P (AList.update k v al) = [(k, v)]"
  by (induction al) auto

text \<open>
  For a tracked metric with no active alert at the start, a sample above the threshold
  whose quotient by the threshold Python can compute and render, then a second sample
  above it, then a sample not above it, give one creation at the first sample, no
  change at the second and one resolution at the third.
\<close>

lemma hysteresis_nonzero:
  assumes wf: "wf_manager am" and none: "existing_alert am M = None"
    and chk: "(M, d, c) \<in> set checks" and thr: "th M = Some T"
    and above1: "num_gt v1 T" and above2: "num_gt v2 T" and below: "\<not> num_gt v3 T"
    and quot: "truediv v1 T = Inr q" and dv: "to_double v1 = Inr x" and dt: "to_double T = Inr y"
  shows "\<exists>a aid am1 am3 t3.
      check_thresholds fmt th clock1 [M \<mapsto> v1] am = (am1, None)
      \<and> alert_history am1 = alert_history am @ [a]
      \<and> active_alerts am1 = AList.update aid (length (alert_history am)) (active_alerts am)
      \<and> metric_name a = M \<and> current_value a = v1 \<and> threshold_value a = T \<and> \<not> resolved a
      \<and> check_thresholds fmt th clock2 [M \<mapsto> v2] am1 = (am1, None)
      \<and> check_thresholds fmt th clock3 [M \<mapsto> v3] am1 = (am3, None)
      \<and> alert_history am3 = alert_history am @ [a\<lparr>resolved := True, resolved_timestamp := Some t3\<rparr>]
      \<and> active_alerts am3 = AList.delete aid (active_alerts am1)"
proof -
  let ?h = "alert_history am" and ?al = "active_alerts am"
  obtain now1 where c1: "check_thresholds fmt th clock1 [M \<mapsto> v1] am =
      (case check_metric fmt th [M \<mapsto> v1] now1 (M, d, c) am of
         Inl e \<Rightarrow> (am, Some e) | Inr am' \<Rightarrow> (am', None))"
    using check_thresholds_single [OF chk] by blast
  from quot obtain sev where sev: "determine_severity v1 T = Inr sev"
    using determine_severity_tiers by blast
  define msg where "msg = d @ '' excede el umbral: '' @ fmt x @ '' > '' @ fmt y"
  let ?res = "create_alert am now1 c M msg v1 T sev"
  let ?a = "fst ?res" and ?am1 = "snd ?res"
  let ?aid = "make_alert_id c M now1"
  have m1: "check_metric fmt th [M \<mapsto> v1] now1 (M, d, c) am = Inr ?am1"
    using thr none sev above1 dv dt by (simp add: check_metric_def format_2f_def msg_def)
  have h1: "alert_history ?am1 = ?h @ [?a]" by (rule history_create)
  have a1: "active_alerts ?am1 = AList.update ?aid (length ?h) ?al" by (rule active_create)
  have fields: "metric_name ?a = M" "current_value ?a = v1" "threshold_value ?a = T"
    "\<not> resolved ?a"
    by (simp_all add: create_alert_def Let_def)
  let ?P = "\<lambda>p. metric_name (alert_history ?am1 ! snd p) = M"
  have old: "\<not> ?P p" if "p \<in> set ?al" for p
  proof -
    from wf that have "snd p < length ?h" by (auto simp: wf_manager_def)
    with none that show ?thesis
      by (auto simp: h1 nth_append existing_alert_None_iff)
  qed
  have new: "?P (?aid, length ?h)" by (simp add: h1 fields)
  have flt: "filter ?P (active_alerts ?am1) = [(?aid, length ?h)]"
    unfolding a1 using old new by (intro filter_update_single) auto
  have look: "map_of (active_alerts ?am1) ?aid = Some (length ?h)"
    by (simp add: a1 AList.update_conv')
  then have mem: "(?aid, length ?h) \<in> set (active_alerts ?am1)"
    by (rule map_of_SomeD)
  have ex1: "existing_alert ?am1 M \<noteq> None"
    unfolding existing_alert_None_iff using new mem by blast
  obtain now2 where c2: "check_thresholds fmt th clock2 [M \<mapsto> v2] ?am1 =
      (case check_metric fmt th [M \<mapsto> v2] now2 (M, d, c) ?am1 of
         Inl e \<Rightarrow> (?am1, Some e) | Inr am' \<Rightarrow> (am', None))"
    using check_thresholds_single [OF chk] by blast
  have m2: "check_metric fmt th [M \<mapsto> v2] now2 (M, d, c) ?am1 = Inr ?am1"
    using thr ex1 above2 by (auto simp: check_metric_def)
  obtain now3 where c3: "check_thresholds fmt th clock3 [M \<mapsto> v3] ?am1 =
      (case check_metric fmt th [M \<mapsto> v3] now3 (M, d, c) ?am1 of
         Inl e \<Rightarrow> (?am1, Some e) | Inr am' \<Rightarrow> (am', None))"
    using check_thresholds_single [OF chk] by blast
  have ids: "alerts_to_resolve ?am1 M = [?aid]"
    by (simp only: alerts_to_resolve_def split_def flt list.map fst_conv)
  let ?am3 = "snd (resolve_alert ?am1 now3 ?aid)"
  have m3: "check_metric fmt th [M \<mapsto> v3] now3 (M, d, c) ?am1 = Inr ?am3"
    using thr below by (simp add: check_metric_def ids resolve_all_def)
  have h3: "alert_history ?am3 = ?h @ [?a\<lparr>resolved := True, resolved_timestamp := Some now3\<rparr>]"
    by (simp add: resolve_alert_Some [OF look] h1)
  have a3: "active_alerts ?am3 = AList.delete ?aid (active_alerts ?am1)"
    by (simp add: resolve_alert_Some [OF look])
  show ?thesis
    using c1 m1 h1 a1 fields c2 m2 c3 m3 h3 a3
    by (intro exI [of _ ?a] exI [of _ ?aid] exI [of _ ?am1] exI [of _ ?am3] exI [of _ now3]) simp
qed

text \<open>
  In particular for floats: with a float threshold that is neither zero nor a NaN, the
  division and the rendering always return, so two float samples above the threshold
  followed by one not above it give exactly one creation and one resolution.
\<close>

lemma hysteresis_floats:
  assumes "wf_manager am" and "existing_alert am M = None"
    and "(M, d, c) \<in> set checks" and "th M = Some (PyFloat t)" and "\<not> is_zero t"
    and "fl_gt x1 t" and "fl_gt x2 t" and "\<not> fl_gt x3 t"
  shows "\<exists>a aid am1 am3 t3.
      check_thresholds fmt th clock1 [M \<mapsto> PyFloat x1] am = (am1, None)
      \<and> alert_history am1 = alert_history am @ [a]
      \<and> active_alerts am1 = AList.update aid (length (alert_history am)) (active_alerts am)
      \<and> metric_name a = M \<and> current_value a = PyFloat x1 \<and> threshold_value a = PyFloat t
      \<and> \<not> resolved a
      \<and> check_thresholds fmt th clock2 [M \<mapsto> PyFloat x2] am1 = (am1, None)
      \<and> check_thresholds fmt th clock3 [M \<mapsto> PyFloat x3] am1 = (am3, None)
      \<and> alert_history am3 = alert_history am @ [a\<lparr>resolved := True, resolved_timestamp := Some t3\<rparr>]
      \<and> active_alerts am3 = AList.delete aid (active_alerts am1)"
proof -
  have "truediv (PyFloat x1) (PyFloat t) = Inr (ieee_div x1 t)"
    using assms(5) by (simp add: truediv_floats)
  moreover have "num_gt (PyFloat x1) (PyFloat t)" "num_gt (PyFloat x2) (PyFloat t)"
    "\<not> num_gt (PyFloat x3) (PyFloat t)"
    using assms(6-8) by (simp_all add: num_gt_def exact_def)
  moreover have "to_double (PyFloat x1) = Inr x1" "to_double (PyFloat t) = Inr t"
    by (simp_all add: to_double_def)
  ultimately show ?thesis
    using assms(1-4) by (intro hysteresis_nonzero)
qed

end
